theory Spec2Isabelle
  imports Complex_Main
begin

section \<open>Values of the usage log\<close>

text \<open>
  The log is the \<open>byDate\<close> object of the JSON document that \<open>loadData\<close> parses. A day's
  value is a JSON scalar (the legacy form, a plain number of hours) or an object whose
  fields \<open>main\<close> and \<open>sub\<close> are each absent or a JSON scalar. JSON scalars here are
  \<open>null\<close>, the booleans and the numbers; a number is an idealised real, so rounding of
  IEEE doubles is not part of the model. String, array and nested object values are not
  covered by these types: on them \<open>+\<close> is string concatenation in JavaScript.
\<close>

datatype json = JNull | JBool bool | JNum real

datatype dayrec = Legacy json | Structured "json option" "json option"

type_synonym usagelog = "string \<rightharpoonup> dayrec"

text \<open>Truthiness, as \<open>!v\<close>, \<open>while (v)\<close> and \<open>v || 0\<close> test it.\<close>

fun truthy :: "json \<Rightarrow> bool" where
  "truthy JNull = False"
| "truthy (JBool b) = b"
| "truthy (JNum x) = (x \<noteq> 0)"

fun truthyRec :: "dayrec \<Rightarrow> bool" where
  "truthyRec (Legacy j) = truthy j"
| "truthyRec (Structured m s) = True"

text \<open>
  \<open>byDate[d]\<close> for a key that is absent is \<open>undefined\<close>, which is falsy; \<open>lookup\<close>
  returns the day's value when the loop goes on to use it and \<open>None\<close> when the
  test \<open>!v\<close> holds.
\<close>

definition lookup :: "usagelog \<Rightarrow> string \<Rightarrow> dayrec option" where
  "lookup byDate d =
     (case byDate d of None \<Rightarrow> None | Some v \<Rightarrow> (if truthyRec v then Some v else None))"

text \<open>\<open>x || 0\<close>, where \<open>x\<close> is a field that may be absent.\<close>

definition orZero :: "json option \<Rightarrow> json" where
  "orZero x = (case x of None \<Rightarrow> JNum 0 | Some j \<Rightarrow> (if truthy j then j else JNum 0))"

text \<open>\<open>ToNumber\<close> on the scalars, as \<open>+\<close>, \<open>+=\<close> and \<open>>\<close> apply it.\<close>

fun toNumber :: "json \<Rightarrow> real" where
  "toNumber JNull = 0"
| "toNumber (JBool b) = (if b then 1 else 0)"
| "toNumber (JNum x) = x"

definition jsPlus :: "json \<Rightarrow> json \<Rightarrow> json" where
  "jsPlus a b = JNum (toNumber a + toNumber b)"

definition gtZero :: "json \<Rightarrow> bool" where
  "gtZero a = (toNumber a > 0)"

text \<open>\<open>a === 0\<close>: strict equality, true only of the number zero.\<close>

definition strictEqZero :: "json \<Rightarrow> bool" where
  "strictEqZero a = (a = JNum 0)"

text \<open>
  The three readings of a truthy day value \<open>v\<close>:
  \<open>typeof v === 'object' ? (v.main || 0) : 0\<close>,
  \<open>typeof v === 'object' ? (v.sub || 0) : (v || 0)\<close> and
  \<open>typeof v === 'object' ? (v.main || 0) + (v.sub || 0) : (v || 0)\<close>.
  (\<open>typeof null\<close> is \<open>'object'\<close> too, but \<open>null\<close> is falsy and never gets here.)
\<close>

fun mainOf :: "dayrec \<Rightarrow> json" where
  "mainOf (Structured m s) = orZero m"
| "mainOf (Legacy j) = JNum 0"

fun subOf :: "dayrec \<Rightarrow> json" where
  "subOf (Structured m s) = orZero s"
| "subOf (Legacy j) = orZero (Some j)"

fun activityOf :: "dayrec \<Rightarrow> json" where
  "activityOf (Structured m s) = jsPlus (orZero m) (orZero s)"
| "activityOf (Legacy j) = orZero (Some j)"

text \<open>
  Division of numbers. JavaScript does not raise on a zero divisor, the quotient is
  \<open>NaN\<close> or an infinity; \<open>None\<close> stands for such a quotient, and it is absorbing in
  \<open>Math.round\<close> and in the sum of the points, as \<open>NaN\<close> is.
\<close>

definition jsDivide :: "real \<Rightarrow> real \<Rightarrow> real option" where
  "jsDivide a b = (if b = 0 then None else Some (a / b))"

text \<open>\<open>Math.round\<close>: the nearest integer, a tie goes up.\<close>

definition jsRound :: "real \<Rightarrow> int" where
  "jsRound x = \<lfloor>x + 1 / 2\<rfloor>"

definition jsAdd :: "int option \<Rightarrow> int option \<Rightarrow> int option" where
  "jsAdd a b = (case (a, b) of (Some x, Some y) \<Rightarrow> Some (x + y) | _ \<Rightarrow> None)"

section \<open>Calendar dates of the platform\<close>

text \<open>
  \<open>addDays\<close> goes through the platform's \<open>Date\<close>: \<open>new Date(y, m - 1, d)\<close>,
  \<open>setDate(getDate() + n)\<close> and the three getters. The definitions below follow the
  ECMAScript specification of these operations (\<open>DayFromYear\<close>, \<open>YearFromTime\<close>,
  \<open>MonthFromTime\<close>, \<open>DateFromTime\<close>, \<open>MakeDay\<close>, \<open>TimeClip\<close>). Every date the
  code builds is a local midnight, so a \<open>Date\<close> is modelled by its day number (days since
  1 January 1970) and \<open>None\<close> is the invalid date. The local time zone is taken to have
  a constant offset, so that the calendar fields of a local midnight are those of its day
  number; zones that skip or repeat a calendar day are outside the model.
\<close>

definition dayFromYear :: "int \<Rightarrow> int" where
  "dayFromYear y =
     365 * (y - 1970) + (y - 1969) div 4 - (y - 1901) div 100 + (y - 1601) div 400"

definition leapYear :: "int \<Rightarrow> bool" where
  "leapYear y = (y mod 4 = 0 \<and> (y mod 100 \<noteq> 0 \<or> y mod 400 = 0))"

definition daysInYear :: "int \<Rightarrow> int" where
  "daysInYear y = (if leapYear y then 366 else 365)"

text \<open>
  \<open>YearFromTime\<close> is the largest year whose first day is not after the given day. It is
  computed by walking up from a year that is not after it, \<open>start\<close> being the first day
  of \<open>y\<close>.
\<close>

function yearUp :: "int \<Rightarrow> int \<Rightarrow> int \<Rightarrow> int" where
  "yearUp y start day =
     (if start + daysInYear y \<le> day then yearUp (y + 1) (start + daysInYear y) day else y)"
  by pat_completeness auto
termination
  by (relation "measure (\<lambda>(y, start, day). nat (day - start))")
    (auto simp: daysInYear_def split: if_splits)

declare yearUp.simps [simp del]

definition yearFromDay :: "int \<Rightarrow> int" where
  "yearFromDay day =
     (let y0 = 1970 + (if 0 \<le> day then day div 366 else day div 365)
      in yearUp y0 (dayFromYear y0) day)"

text \<open>The day within the year on which month \<open>m\<close> (0 to 11) starts.\<close>

definition monthStart :: "bool \<Rightarrow> int \<Rightarrow> int" where
  "monthStart leap m =
     (let l = (if leap then 1 else 0)
      in if m = 0 then 0 else if m = 1 then 31 else if m = 2 then 59 + l
         else if m = 3 then 90 + l else if m = 4 then 120 + l else if m = 5 then 151 + l
         else if m = 6 then 181 + l else if m = 7 then 212 + l else if m = 8 then 243 + l
         else if m = 9 then 273 + l else if m = 10 then 304 + l else 334 + l)"

definition monthOfYearDay :: "bool \<Rightarrow> int \<Rightarrow> int" where
  "monthOfYearDay leap dw =
     (let l = (if leap then 1 else 0)
      in if dw < 31 then 0 else if dw < 59 + l then 1 else if dw < 90 + l then 2
         else if dw < 120 + l then 3 else if dw < 151 + l then 4 else if dw < 181 + l then 5
         else if dw < 212 + l then 6 else if dw < 243 + l then 7 else if dw < 273 + l then 8
         else if dw < 304 + l then 9 else if dw < 334 + l then 10 else 11)"

definition dayWithinYear :: "int \<Rightarrow> int" where
  "dayWithinYear day = day - dayFromYear (yearFromDay day)"

definition monthFromDay :: "int \<Rightarrow> int" where
  "monthFromDay day = monthOfYearDay (leapYear (yearFromDay day)) (dayWithinYear day)"

definition dateFromDay :: "int \<Rightarrow> int" where
  "dateFromDay day =
     dayWithinYear day - monthStart (leapYear (yearFromDay day)) (monthFromDay day) + 1"

definition makeDay :: "int \<Rightarrow> int \<Rightarrow> int \<Rightarrow> int" where
  "makeDay year month date =
     (let ym = year + month div 12; mn = month mod 12
      in dayFromYear ym + monthStart (leapYear ym) mn + date - 1)"

text \<open>\<open>TimeClip\<close>: a time value beyond 100,000,000 days from the epoch is invalid.\<close>

definition timeClip :: "int \<Rightarrow> int option" where
  "timeClip day = (if \<bar>day\<bar> \<le> 100000000 then Some day else None)"

text \<open>
  \<open>new Date(year, month, date)\<close> on numbers that may be \<open>NaN\<close> (\<open>None\<close>). A year from
  0 to 99 is read as 1900 + year.
\<close>

definition newDate :: "int option \<Rightarrow> int option \<Rightarrow> int option \<Rightarrow> int option" where
  "newDate year month date =
     (case (year, month, date) of
        (Some y, Some m, Some d) \<Rightarrow>
          timeClip (makeDay (if 0 \<le> y \<and> y \<le> 99 then 1900 + y else y) m d)
      | _ \<Rightarrow> None)"

definition setDate :: "int option \<Rightarrow> int option \<Rightarrow> int option" where
  "setDate dt date =
     (case (dt, date) of
        (Some day, Some d) \<Rightarrow> timeClip (makeDay (yearFromDay day) (monthFromDay day) d)
      | _ \<Rightarrow> None)"

definition getFullYear :: "int option \<Rightarrow> int option" where
  "getFullYear dt = map_option yearFromDay dt"

definition getMonth :: "int option \<Rightarrow> int option" where
  "getMonth dt = map_option monthFromDay dt"

definition getDate :: "int option \<Rightarrow> int option" where
  "getDate dt = map_option dateFromDay dt"

section \<open>Date strings\<close>

definition digitChar :: "nat \<Rightarrow> char" where
  "digitChar k = ''0123456789'' ! k"

definition digitVal :: "char \<Rightarrow> nat option" where
  "digitVal =
     map_of [(CHR ''0'', 0), (CHR ''1'', 1), (CHR ''2'', 2), (CHR ''3'', 3), (CHR ''4'', 4),
       (CHR ''5'', 5), (CHR ''6'', 6), (CHR ''7'', 7), (CHR ''8'', 8), (CHR ''9'', 9)]"

fun jsDigits :: "nat \<Rightarrow> string" where
  "jsDigits n = (if n < 10 then [digitChar n] else jsDigits (n div 10) @ [digitChar (n mod 10)])"

declare jsDigits.simps [simp del]

text \<open>The string of an integer or of \<open>NaN\<close>, as a template literal and \<open>String\<close> give it.\<close>

definition jsString :: "int option \<Rightarrow> string" where
  "jsString x =
     (case x of
        None \<Rightarrow> ''NaN''
      | Some i \<Rightarrow> (if i < 0 then CHR ''-'' # jsDigits (nat (- i)) else jsDigits (nat i)))"

text \<open>\<open>s.padStart(w, '0')\<close>.\<close>

definition padStart :: "nat \<Rightarrow> string \<Rightarrow> string" where
  "padStart w s = replicate (w - length s) CHR ''0'' @ s"

text \<open>\<open>s.split('-')\<close>.\<close>

fun split_dash :: "string \<Rightarrow> string list" where
  "split_dash [] = [[]]"
| "split_dash (c # cs) =
     (if c = CHR ''-'' then [] # split_dash cs
      else (case split_dash cs of p # ps \<Rightarrow> (c # p) # ps | [] \<Rightarrow> [[c]]))"

text \<open>
  \<open>Number(s)\<close> on the parts of a date string: a string of decimal digits is its value and
  the empty string is 0. Every other string is read as \<open>NaN\<close> here; that is what
  JavaScript does too unless the part is a numeric literal with white space, a sign, a
  fraction, an exponent or a radix prefix, or \<open>Infinity\<close>, which no date string of
  \<open>localToday\<close> or \<open>addDays\<close> contains.
\<close>

fun digitsValue :: "nat \<Rightarrow> string \<Rightarrow> nat option" where
  "digitsValue acc [] = Some acc"
| "digitsValue acc (c # cs) =
     (case digitVal c of None \<Rightarrow> None | Some k \<Rightarrow> digitsValue (10 * acc + k) cs)"

definition jsNumber :: "string \<Rightarrow> int option" where
  "jsNumber s = map_option int (digitsValue 0 s)"

text \<open>
  The destructuring \<open>[y, m, d] = parts\<close>: an element that is not there is \<open>undefined\<close>,
  hence \<open>NaN\<close> as a number.
\<close>

definition element :: "string list \<Rightarrow> nat \<Rightarrow> int option" where
  "element parts i = (if i < length parts then jsNumber (parts ! i) else None)"

definition addDays :: "string \<Rightarrow> int \<Rightarrow> string" where
  "addDays dateStr n =
     (let parts = split_dash dateStr;
          y = element parts 0; m = element parts 1; d = element parts 2;
          dt = newDate y (map_option (\<lambda>m. m - 1) m) d;
          dt' = setDate dt (map_option (\<lambda>d. d + n) (getDate dt))
      in jsString (getFullYear dt') @ ''-''
           @ padStart 2 (jsString (map_option (\<lambda>m. m + 1) (getMonth dt'))) @ ''-''
           @ padStart 2 (jsString (getDate dt')))"

text \<open>
  The string \<open>addDays\<close> prints for a day number, and the string \<open>localToday\<close> returns for
  a calendar date (the first ten characters of \<open>toISOString\<close>: a year of four digits). The
  two agree on the years 1000 to 9999.
\<close>

definition jsDate :: "int \<Rightarrow> string" where
  "jsDate day =
     jsString (Some (yearFromDay day)) @ ''-''
       @ padStart 2 (jsString (Some (monthFromDay day + 1))) @ ''-''
       @ padStart 2 (jsString (Some (dateFromDay day)))"

definition isoDate :: "int \<Rightarrow> int \<Rightarrow> int \<Rightarrow> string" where
  "isoDate y m d =
     padStart 4 (jsString (Some y)) @ ''-'' @ padStart 2 (jsString (Some m)) @ ''-''
       @ padStart 2 (jsString (Some d))"

definition daysInMonth :: "int \<Rightarrow> int \<Rightarrow> int" where
  "daysInMonth y m =
     (if m = 2 then (if leapYear y then 29 else 28)
      else if m = 4 \<or> m = 6 \<or> m = 9 \<or> m = 11 then 30 else 31)"

definition validDate :: "int \<Rightarrow> int \<Rightarrow> int \<Rightarrow> bool" where
  "validDate y m d = (1 \<le> m \<and> m \<le> 12 \<and> 1 \<le> d \<and> d \<le> daysInMonth y m)"




text \<open>
  An anchor date: the string of a date of the Gregorian calendar in a year of four digits,
  as \<open>localToday\<close> returns it.
\<close>

definition anchorDate :: "string \<Rightarrow> int \<Rightarrow> int \<Rightarrow> int \<Rightarrow> bool" where
  "anchorDate today y m d =
     (today = isoDate y m d \<and> validDate y m d \<and> 1000 \<le> y \<and> y \<le> 9999)"

text \<open>The day before a calendar date, on year, month and day alone.\<close>

definition prevDay :: "int \<times> int \<times> int \<Rightarrow> int \<times> int \<times> int" where
  "prevDay ymd =
     (case ymd of (y, m, d) \<Rightarrow>
        if 1 < d then (y, m, d - 1)
        else if 1 < m then (y, m - 1, daysInMonth y (m - 1))
        else (y - 1, 12, 31))"

section \<open>The streak\<close>

text \<open>
  The loop of \<open>computeStreak\<close>: while the day has a truthy value whose activity is not
  \<open>=== 0\<close>, count it and step to the day before. Nothing in the loop bounds the number
  of steps, so a run that does not return is the value \<open>None\<close>.
\<close>

partial_function (option) streakLoop :: "usagelog \<Rightarrow> string \<Rightarrow> nat \<Rightarrow> nat option" where
  "streakLoop byDate d streak =
     (case lookup byDate d of
        None \<Rightarrow> Some streak
      | Some v \<Rightarrow>
          (if strictEqZero (activityOf v) then Some streak
           else streakLoop byDate (addDays d (- 1)) (streak + 1)))"

declare streakLoop.simps [code]

definition computeStreak :: "usagelog \<Rightarrow> string \<Rightarrow> nat option" where
  "computeStreak byDate today =
     streakLoop byDate (if lookup byDate today = None then addDays today (- 1) else today) 0"

section \<open>The component scores\<close>

text \<open>
  Each scorer is a \<open>for\<close> loop over \<open>i = 0, ..., window - 1\<close> that reads
  \<open>byDate[addDays(today, -i)]\<close> and skips a falsy value. The loop is a \<open>fold\<close> over
  \<open>[0..<window]\<close>; the function folded is the loop body, on the value read.
\<close>

definition dayValue :: "usagelog \<Rightarrow> string \<Rightarrow> nat \<Rightarrow> dayrec option" where
  "dayValue byDate today i = lookup byDate (addDays today (- int i))"

record consistencyScore =
  raw :: "real option"
  c_points :: "int option"
  c_activeDays :: nat
  c_window :: nat

definition consistencyBody :: "dayrec option \<Rightarrow> nat \<Rightarrow> nat" where
  "consistencyBody v active =
     (case v of
        None \<Rightarrow> active
      | Some r \<Rightarrow> (if gtZero (activityOf r) then active + 1 else active))"

definition scoreConsistency :: "usagelog \<Rightarrow> string \<Rightarrow> nat \<Rightarrow> consistencyScore" where
  "scoreConsistency byDate today window =
     (let active = fold (\<lambda>i. consistencyBody (dayValue byDate today i)) [0..<window] 0;
          pct = jsDivide (real active) (real window)
      in \<lparr>raw = pct, c_points = map_option (\<lambda>p. jsRound (p * 30)) pct,
          c_activeDays = active, c_window = window\<rparr>)"

record autonomyScore =
  ratio :: "real option"
  a_points :: "int option"
  mainHours :: real
  subHours :: real

definition autonomyBody :: "dayrec option \<Rightarrow> real \<times> real \<Rightarrow> real \<times> real" where
  "autonomyBody v acc =
     (case v of
        None \<Rightarrow> acc
      | Some r \<Rightarrow> (fst acc + toNumber (mainOf r), snd acc + toNumber (subOf r)))"

definition scoreAutonomy :: "usagelog \<Rightarrow> string \<Rightarrow> nat \<Rightarrow> autonomyScore" where
  "scoreAutonomy byDate today window =
     (let acc = fold (\<lambda>i. autonomyBody (dayValue byDate today i)) [0..<window] (0, 0);
          main = fst acc; sub = snd acc;
          ratio = (if main > 0 then jsDivide sub main else Some (if sub > 0 then 2 else 0));
          points = map_option (\<lambda>r. min 25 (jsRound (r * 12.5))) ratio
      in \<lparr>ratio = ratio, a_points = points, mainHours = main, subHours = sub\<rparr>)"

record ghostScore =
  ghostDays :: nat
  g_activeDays :: nat
  pct :: "real option"
  g_points :: "int option"

definition ghostBody :: "dayrec option \<Rightarrow> nat \<times> nat \<Rightarrow> nat \<times> nat" where
  "ghostBody v acc =
     (case v of
        None \<Rightarrow> acc
      | Some r \<Rightarrow>
          (let m = mainOf r; s = subOf r
           in if gtZero m \<or> gtZero s
              then (if strictEqZero m \<and> gtZero s then fst acc + 1 else fst acc, snd acc + 1)
              else acc))"

definition scoreGhostDays :: "usagelog \<Rightarrow> string \<Rightarrow> nat \<Rightarrow> ghostScore" where
  "scoreGhostDays byDate today window =
     (let acc = fold (\<lambda>i. ghostBody (dayValue byDate today i)) [0..<window] (0, 0);
          ghost = fst acc; active = snd acc;
          pct = (if active > 0 then jsDivide (real ghost) (real active) else Some 0);
          points = map_option (\<lambda>p. min 20 (jsRound (p * 25))) pct
      in \<lparr>ghostDays = ghost, g_activeDays = active, pct = pct, g_points = points\<rparr>)"

record volumeScore =
  totalHours :: real
  v_points :: int

definition volumeBody :: "dayrec option \<Rightarrow> real \<Rightarrow> real" where
  "volumeBody v tot =
     (case v of None \<Rightarrow> tot | Some r \<Rightarrow> tot + toNumber (activityOf r))"

definition scoreVolume :: "usagelog \<Rightarrow> string \<Rightarrow> nat \<Rightarrow> volumeScore" where
  "scoreVolume byDate today window =
     (let tot = fold (\<lambda>i. volumeBody (dayValue byDate today i)) [0..<window] 0;
          points = min 15 (jsRound ((tot / 100) * 15))
      in \<lparr>totalHours = tot, v_points = points\<rparr>)"

record streakScore =
  streak :: nat
  s_points :: int

definition scoreStreak :: "nat \<Rightarrow> streakScore" where
  "scoreStreak k = \<lparr>streak = k, s_points = min 10 (jsRound ((real k / 30) * 10))\<rparr>"

section \<open>Grades\<close>

text \<open>
  The object returned by \<open>grade\<close>: a tier letter, its label and a one-line description.
\<close>

record tier =
  grade_letter :: string
  label :: string
  desc :: string

text \<open>\<open>score >= bound\<close> on a score that may be \<open>NaN\<close>: a comparison with \<open>NaN\<close> is false.\<close>

definition jsGe :: "int option \<Rightarrow> int \<Rightarrow> bool" where
  "jsGe score bound = (case score of None \<Rightarrow> False | Some s \<Rightarrow> s \<ge> bound)"

text \<open>\<open>grade(score)\<close>: a chain of \<open>score >= bound\<close> tests, the first that holds decides.\<close>

definition grade :: "int option \<Rightarrow> tier" where
  "grade score =
     (if jsGe score 90 then \<lparr>grade_letter = ''S'', label = ''Cyborg'', desc = ''You and AI are seamlessly fused.''\<rparr>
      else if jsGe score 75 then \<lparr>grade_letter = ''A'', label = ''Power User'', desc = ''Serious AI collaboration.''\<rparr>
      else if jsGe score 60 then \<lparr>grade_letter = ''B'', label = ''Growing'', desc = ''Your AI habits are taking shape.''\<rparr>
      else if jsGe score 45 then \<lparr>grade_letter = ''C'', label = ''Early Stage'', desc = ''Room to develop the relationship.''\<rparr>
      else if jsGe score 30 then \<lparr>grade_letter = ''D'', label = ''Getting Started'', desc = ''Keep going.''\<rparr>
      else \<lparr>grade_letter = ''F'', label = ''Dormant'', desc = ''Wake up your AI.''\<rparr>)"

section \<open>The scoring run\<close>

text \<open>
  The main part of the script, from the five component scores to the grade, on the log and
  the anchor date it is given. The run returns nothing when the streak loop does not.
\<close>

record scoring =
  consistency :: consistencyScore
  autonomy :: autonomyScore
  ghost :: ghostScore
  volume :: volumeScore
  streakPart :: streakScore
  score :: "int option"
  tierOf :: tier

definition scoreAll :: "usagelog \<Rightarrow> string \<Rightarrow> scoring option" where
  "scoreAll byDate today =
     (let consistency = scoreConsistency byDate today 30;
          autonomy = scoreAutonomy byDate today 30;
          ghostScore = scoreGhostDays byDate today 30;
          volume = scoreVolume byDate today 30
      in case computeStreak byDate today of
           None \<Rightarrow> None
         | Some k \<Rightarrow>
             (let streak = scoreStreak k;
                  tot = jsAdd (jsAdd (jsAdd (jsAdd (c_points consistency) (a_points autonomy))
                            (g_points ghostScore)) (Some (v_points volume))) (Some (s_points streak))
              in Some \<lparr>consistency = consistency, autonomy = autonomy, ghost = ghostScore,
                       volume = volume, streakPart = streak, score = tot,
                       tierOf = grade tot\<rparr>))"

section \<open>Notions used to state the properties\<close>

text \<open>The dates a window scorer reads, in the order it reads them.\<close>

definition windowDates :: "string \<Rightarrow> nat \<Rightarrow> string list" where
  "windowDates today window = map (\<lambda>i. addDays today (- int i)) [0..<window]"




text \<open>
  What a day contributes to the sums and counts of the window, as a function of the value
  stored for it: nothing when there is none.
\<close>

definition dayMain :: "dayrec option \<Rightarrow> real" where
  "dayMain v = (case v of Some r \<Rightarrow> (if truthyRec r then toNumber (mainOf r) else 0) | None \<Rightarrow> 0)"

definition daySub :: "dayrec option \<Rightarrow> real" where
  "daySub v = (case v of Some r \<Rightarrow> (if truthyRec r then toNumber (subOf r) else 0) | None \<Rightarrow> 0)"

definition dayHours :: "dayrec option \<Rightarrow> real" where
  "dayHours v =
     (case v of Some r \<Rightarrow> (if truthyRec r then toNumber (activityOf r) else 0) | None \<Rightarrow> 0)"

definition dayActive :: "dayrec option \<Rightarrow> bool" where
  "dayActive v = (dayHours v > 0)"

definition dayBusy :: "dayrec option \<Rightarrow> bool" where
  "dayBusy v = (dayMain v > 0 \<or> daySub v > 0)"

definition dayGhost :: "dayrec option \<Rightarrow> bool" where
  "dayGhost v = (dayMain v = 0 \<and> daySub v > 0)"

text \<open>
  A day the streak loop counts: its value is truthy and its activity is not \<open>=== 0\<close>.
\<close>

definition dayCounts :: "dayrec option \<Rightarrow> bool" where
  "dayCounts v =
     (case v of None \<Rightarrow> False | Some r \<Rightarrow> truthyRec r \<and> \<not> strictEqZero (activityOf r))"



text \<open>The template literal of \<open>addDays\<close> on a year, a month and a day.\<close>

definition dateString :: "int \<Rightarrow> int \<Rightarrow> int \<Rightarrow> string" where
  "dateString y m d =
     jsString (Some y) @ ''-'' @ padStart 2 (jsString (Some m)) @ ''-''
       @ padStart 2 (jsString (Some d))"

section \<open>Sample inputs\<close>

text \<open>A log with one structured day, 15 June 2024: 48 primary and 71 secondary hours.\<close>

definition oneDayLog :: usagelog where
  "oneDayLog = [''2024-06-15'' \<mapsto> Structured (Some (JNum 48)) (Some (JNum 71))]"

text \<open>The same log with one more day, the day after and 30 days before 15 June 2024.\<close>

definition futureLog :: usagelog where
  "futureLog = oneDayLog(''2024-06-16'' \<mapsto> Legacy (JNum 5))"

definition pastLog :: usagelog where
  "pastLog = oneDayLog(''2024-05-16'' \<mapsto> Structured (Some (JNum 7)) None)"

text \<open>
  Two logs with one hour on 14 June 2024 and a record without hours on 15 June: a
  structured record with two zero fields, and the legacy scalar 0.
\<close>

definition zeroTodayLog :: usagelog where
  "zeroTodayLog =
     [''2024-06-15'' \<mapsto> Structured (Some (JNum 0)) (Some (JNum 0)),
      ''2024-06-14'' \<mapsto> Legacy (JNum 1)]"

definition scalarZeroLog :: usagelog where
  "scalarZeroLog = [''2024-06-15'' \<mapsto> Legacy (JNum 0), ''2024-06-14'' \<mapsto> Legacy (JNum 1)]"

text \<open>One hour on each of the 36 days before 15 June 2024 and nothing else.\<close>

definition streakLog :: usagelog where
  "streakLog =
     map_of (map (\<lambda>i. (addDays ''2024-06-15'' (- int i), Legacy (JNum 1))) [1..<37])"


section \<open>Numbers of the platform\<close>

text \<open>
  A JavaScript number is an IEEE 754 double: a finite value, an infinity or \<open>NaN\<close>. The
  finite values are the reals \<open>n * 2 ^ (e - 52)\<close> with \<open>e\<close> from -1022 to 1023 and
  \<open>n\<close> an integer below \<open>2 ^ 53\<close> in magnitude. The two zeros are one value here: the
  scorers cannot tell them apart, as every division they reach has a divisor that is a
  constant or was tested to be positive.
\<close>

datatype f64 = NaN | PInf | NInf | Fin real

text \<open>The integer nearest to a real, a tie going to the even one.\<close>

definition roundEven :: "real \<Rightarrow> int" where
  "roundEven x =
     (let n = \<lfloor>x\<rfloor>; r = x - of_int n in
      if r < 1 / 2 then n else if 1 / 2 < r then n + 1 else if even n then n else n + 1)"

text \<open>
  The binade of a positive real \<open>a\<close>: the exponent \<open>e\<close> with \<open>2 ^ e \<le> a < 2 ^ (e + 1)\<close>,
  kept within the range of the format (below \<open>2 ^ -1022\<close> the numbers are subnormal and
  share the exponent -1022). It is found by a search up or down from 0.
\<close>

function expUp :: "real \<Rightarrow> int \<Rightarrow> int" where
  "expUp a e = (if e < 1023 \<and> 2 powi (e + 1) \<le> a then expUp a (e + 1) else e)"
  by pat_completeness auto
termination
  by (relation "measure (\<lambda>(a, e). nat (1023 - e))") auto

function expDown :: "real \<Rightarrow> int \<Rightarrow> int" where
  "expDown a e = (if - 1022 < e \<and> a < 2 powi e then expDown a (e - 1) else e)"
  by pat_completeness auto
termination
  by (relation "measure (\<lambda>(a, e). nat (e + 1022))") auto

declare expUp.simps [simp del] expDown.simps [simp del]

definition expo :: "real \<Rightarrow> int" where
  "expo a = (if 1 \<le> a then expUp a 0 else expDown a 0)"

text \<open>
  The double nearest to a real, ties to even, as every arithmetic operation and the
  reading of a number literal round their exact result: on the grid of step
  \<open>2 ^ (e - 52)\<close> of its binade; a result of \<open>2 ^ 1024\<close> or more is an infinity.
\<close>

definition rndPos :: "real \<Rightarrow> f64" where
  "rndPos a =
     (let q = 2 powi (expo a - 52); v = of_int (roundEven (a / q)) * q in
      if 2 powi 1024 \<le> v then PInf else Fin v)"

fun neg64 :: "f64 \<Rightarrow> f64" where
  "neg64 NaN = NaN"
| "neg64 PInf = NInf"
| "neg64 NInf = PInf"
| "neg64 (Fin x) = Fin (- x)"

definition rnd :: "real \<Rightarrow> f64" where
  "rnd x = (if x = 0 then Fin 0 else if x < 0 then neg64 (rndPos (- x)) else rndPos x)"

text \<open>
  The operations \<open>+\<close>, \<open>*\<close> and \<open>/\<close> on doubles: the exact result rounded, and the
  rules of the standard for the infinities and \<open>NaN\<close>.
\<close>

fun add64 :: "f64 \<Rightarrow> f64 \<Rightarrow> f64" where
  "add64 (Fin a) (Fin b) = rnd (a + b)"
| "add64 NaN y = NaN"
| "add64 x NaN = NaN"
| "add64 PInf NInf = NaN"
| "add64 NInf PInf = NaN"
| "add64 PInf y = PInf"
| "add64 NInf y = NInf"
| "add64 (Fin a) y = y"

fun mul64 :: "f64 \<Rightarrow> f64 \<Rightarrow> f64" where
  "mul64 (Fin a) (Fin b) = rnd (a * b)"
| "mul64 NaN y = NaN"
| "mul64 x NaN = NaN"
| "mul64 (Fin a) y = (if a = 0 then NaN else if 0 < a then y else neg64 y)"
| "mul64 x (Fin b) = (if b = 0 then NaN else if 0 < b then x else neg64 x)"
| "mul64 x y = (if x = y then PInf else NInf)"

fun div64 :: "f64 \<Rightarrow> f64 \<Rightarrow> f64" where
  "div64 (Fin a) (Fin b) =
     (if b = 0 then (if a = 0 then NaN else if 0 < a then PInf else NInf) else rnd (a / b))"
| "div64 NaN y = NaN"
| "div64 x NaN = NaN"
| "div64 (Fin a) y = Fin 0"
| "div64 x (Fin b) = (if 0 \<le> b then x else neg64 x)"
| "div64 x y = NaN"

text \<open>\<open>x > 0\<close>: false of \<open>NaN\<close>.\<close>

fun positive :: "f64 \<Rightarrow> bool" where
  "positive (Fin x) = (0 < x)"
| "positive PInf = True"
| "positive NInf = False"
| "positive NaN = False"

text \<open>
  \<open>Math.round\<close>: the integer nearest to the argument, a tie goes up; an integer is a double
  whenever the argument is one. \<open>Math.min\<close> of two arguments.
\<close>

fun round64 :: "f64 \<Rightarrow> f64" where
  "round64 (Fin x) = Fin (of_int \<lfloor>x + 1 / 2\<rfloor>)"
| "round64 x = x"

fun min64 :: "f64 \<Rightarrow> f64 \<Rightarrow> f64" where
  "min64 (Fin a) (Fin b) = Fin (min a b)"
| "min64 NaN y = NaN"
| "min64 x NaN = NaN"
| "min64 NInf y = NInf"
| "min64 x NInf = NInf"
| "min64 PInf y = y"
| "min64 x PInf = x"

section \<open>The scorers on the parsed log\<close>

text \<open>
  The object \<open>JSON.parse\<close> returns for the document: a number literal has become the double
  nearest to it (an infinity when it is too large), the rest is as in the document.
\<close>

datatype jval = VNull | VBool bool | VNum f64

datatype dayval = Scalar jval | Fields "jval option" "jval option"

type_synonym parsedlog = "string \<rightharpoonup> dayval"

fun parseValue :: "json \<Rightarrow> jval" where
  "parseValue JNull = VNull"
| "parseValue (JBool b) = VBool b"
| "parseValue (JNum x) = VNum (rnd x)"

fun parseDay :: "dayrec \<Rightarrow> dayval" where
  "parseDay (Legacy j) = Scalar (parseValue j)"
| "parseDay (Structured m s) = Fields (map_option parseValue m) (map_option parseValue s)"

definition parseLog :: "usagelog \<Rightarrow> parsedlog" where
  "parseLog byDate d = map_option parseDay (byDate d)"

text \<open>Truthiness of a value: a number is falsy when it is zero or \<open>NaN\<close>.\<close>

fun truthy64 :: "jval \<Rightarrow> bool" where
  "truthy64 VNull = False"
| "truthy64 (VBool b) = b"
| "truthy64 (VNum x) = (x \<noteq> Fin 0 \<and> x \<noteq> NaN)"

fun truthyDay :: "dayval \<Rightarrow> bool" where
  "truthyDay (Scalar j) = truthy64 j"
| "truthyDay (Fields m s) = True"

definition lookup64 :: "parsedlog \<Rightarrow> string \<Rightarrow> dayval option" where
  "lookup64 byDate d =
     (case byDate d of None \<Rightarrow> None | Some v \<Rightarrow> (if truthyDay v then Some v else None))"

definition orZero64 :: "jval option \<Rightarrow> jval" where
  "orZero64 x = (case x of None \<Rightarrow> VNum (Fin 0) | Some j \<Rightarrow> (if truthy64 j then j else VNum (Fin 0)))"

fun toNumber64 :: "jval \<Rightarrow> f64" where
  "toNumber64 VNull = Fin 0"
| "toNumber64 (VBool b) = Fin (if b then 1 else 0)"
| "toNumber64 (VNum x) = x"

definition jsPlus64 :: "jval \<Rightarrow> jval \<Rightarrow> jval" where
  "jsPlus64 a b = VNum (add64 (toNumber64 a) (toNumber64 b))"

definition gtZero64 :: "jval \<Rightarrow> bool" where
  "gtZero64 a = positive (toNumber64 a)"

definition strictEqZero64 :: "jval \<Rightarrow> bool" where
  "strictEqZero64 a = (a = VNum (Fin 0))"

fun mainOf64 :: "dayval \<Rightarrow> jval" where
  "mainOf64 (Fields m s) = orZero64 m"
| "mainOf64 (Scalar j) = VNum (Fin 0)"

fun subOf64 :: "dayval \<Rightarrow> jval" where
  "subOf64 (Fields m s) = orZero64 s"
| "subOf64 (Scalar j) = orZero64 (Some j)"

fun activityOf64 :: "dayval \<Rightarrow> jval" where
  "activityOf64 (Fields m s) = jsPlus64 (orZero64 m) (orZero64 s)"
| "activityOf64 (Scalar j) = orZero64 (Some j)"

partial_function (option) streakLoop64 :: "parsedlog \<Rightarrow> string \<Rightarrow> nat \<Rightarrow> nat option" where
  "streakLoop64 byDate d count =
     (case lookup64 byDate d of
        None \<Rightarrow> Some count
      | Some v \<Rightarrow>
          (if strictEqZero64 (activityOf64 v) then Some count
           else streakLoop64 byDate (addDays d (- 1)) (count + 1)))"

declare streakLoop64.simps [code]

definition computeStreak64 :: "parsedlog \<Rightarrow> string \<Rightarrow> nat option" where
  "computeStreak64 byDate today =
     streakLoop64 byDate (if lookup64 byDate today = None then addDays today (- 1) else today) 0"

definition dayValue64 :: "parsedlog \<Rightarrow> string \<Rightarrow> nat \<Rightarrow> dayval option" where
  "dayValue64 byDate today i = lookup64 byDate (addDays today (- int i))"

record consistencyScore64 =
  raw64 :: f64
  c_points64 :: f64
  c_activeDays64 :: nat
  c_window64 :: nat

definition consistencyBody64 :: "dayval option \<Rightarrow> nat \<Rightarrow> nat" where
  "consistencyBody64 v active =
     (case v of
        None \<Rightarrow> active
      | Some r \<Rightarrow> (if gtZero64 (activityOf64 r) then active + 1 else active))"

definition scoreConsistency64 :: "parsedlog \<Rightarrow> string \<Rightarrow> nat \<Rightarrow> consistencyScore64" where
  "scoreConsistency64 byDate today window =
     (let active = fold (\<lambda>i. consistencyBody64 (dayValue64 byDate today i)) [0..<window] 0;
          pct = div64 (Fin (real active)) (Fin (real window))
      in \<lparr>raw64 = pct, c_points64 = round64 (mul64 pct (Fin 30)),
          c_activeDays64 = active, c_window64 = window\<rparr>)"

record autonomyScore64 =
  ratio64 :: f64
  a_points64 :: f64
  mainHours64 :: f64
  subHours64 :: f64

definition autonomyBody64 :: "dayval option \<Rightarrow> f64 \<times> f64 \<Rightarrow> f64 \<times> f64" where
  "autonomyBody64 v acc =
     (case v of
        None \<Rightarrow> acc
      | Some r \<Rightarrow> (add64 (fst acc) (toNumber64 (mainOf64 r)),
                   add64 (snd acc) (toNumber64 (subOf64 r))))"

definition scoreAutonomy64 :: "parsedlog \<Rightarrow> string \<Rightarrow> nat \<Rightarrow> autonomyScore64" where
  "scoreAutonomy64 byDate today window =
     (let acc = fold (\<lambda>i. autonomyBody64 (dayValue64 byDate today i)) [0..<window] (Fin 0, Fin 0);
          main = fst acc; sub = snd acc;
          ratio = (if positive main then div64 sub main else if positive sub then Fin 2 else Fin 0);
          points = min64 (Fin 25) (round64 (mul64 ratio (Fin 12.5)))
      in \<lparr>ratio64 = ratio, a_points64 = points, mainHours64 = main, subHours64 = sub\<rparr>)"

record ghostScore64 =
  ghostDays64 :: nat
  g_activeDays64 :: nat
  pct64 :: f64
  g_points64 :: f64

definition ghostBody64 :: "dayval option \<Rightarrow> nat \<times> nat \<Rightarrow> nat \<times> nat" where
  "ghostBody64 v acc =
     (case v of
        None \<Rightarrow> acc
      | Some r \<Rightarrow>
          (let m = mainOf64 r; s = subOf64 r
           in if gtZero64 m \<or> gtZero64 s
              then (if strictEqZero64 m \<and> gtZero64 s then fst acc + 1 else fst acc, snd acc + 1)
              else acc))"

definition scoreGhostDays64 :: "parsedlog \<Rightarrow> string \<Rightarrow> nat \<Rightarrow> ghostScore64" where
  "scoreGhostDays64 byDate today window =
     (let acc = fold (\<lambda>i. ghostBody64 (dayValue64 byDate today i)) [0..<window] (0, 0);
          ghost = fst acc; active = snd acc;
          pct = (if active > 0 then div64 (Fin (real ghost)) (Fin (real active)) else Fin 0);
          points = min64 (Fin 20) (round64 (mul64 pct (Fin 25)))
      in \<lparr>ghostDays64 = ghost, g_activeDays64 = active, pct64 = pct, g_points64 = points\<rparr>)"

record volumeScore64 =
  totalHours64 :: f64
  v_points64 :: f64

definition volumeBody64 :: "dayval option \<Rightarrow> f64 \<Rightarrow> f64" where
  "volumeBody64 v tot =
     (case v of None \<Rightarrow> tot | Some r \<Rightarrow> add64 tot (toNumber64 (activityOf64 r)))"

definition scoreVolume64 :: "parsedlog \<Rightarrow> string \<Rightarrow> nat \<Rightarrow> volumeScore64" where
  "scoreVolume64 byDate today window =
     (let tot = fold (\<lambda>i. volumeBody64 (dayValue64 byDate today i)) [0..<window] (Fin 0);
          points = min64 (Fin 15) (round64 (mul64 (div64 tot (Fin 100)) (Fin 15)))
      in \<lparr>totalHours64 = tot, v_points64 = points\<rparr>)"

record streakScore64 =
  streak64 :: nat
  s_points64 :: f64

definition scoreStreak64 :: "nat \<Rightarrow> streakScore64" where
  "scoreStreak64 k =
     \<lparr>streak64 = k, s_points64 = min64 (Fin 10) (round64 (mul64 (div64 (Fin (real k)) (Fin 30)) (Fin 10)))\<rparr>"

record scoring64 =
  consistency64 :: consistencyScore64
  autonomy64 :: autonomyScore64
  ghost64 :: ghostScore64
  volume64 :: volumeScore64
  streakPart64 :: streakScore64
  score64 :: f64

definition scoreAll64 :: "parsedlog \<Rightarrow> string \<Rightarrow> scoring64 option" where
  "scoreAll64 byDate today =
     (let consistency = scoreConsistency64 byDate today 30;
          autonomy = scoreAutonomy64 byDate today 30;
          ghostScore = scoreGhostDays64 byDate today 30;
          volume = scoreVolume64 byDate today 30
      in case computeStreak64 byDate today of
           None \<Rightarrow> None
         | Some k \<Rightarrow>
             (let streak = scoreStreak64 k;
                  tot = add64 (add64 (add64 (add64 (c_points64 consistency) (a_points64 autonomy))
                            (g_points64 ghostScore)) (v_points64 volume)) (s_points64 streak)
              in Some \<lparr>consistency64 = consistency, autonomy64 = autonomy, ghost64 = ghostScore,
                       volume64 = volume, streakPart64 = streak, score64 = tot\<rparr>))"

text \<open>
  A value is a double when rounding leaves it as it is; the infinities and \<open>NaN\<close> are
  doubles. The sum of a list of doubles as a loop \<open>acc += x\<close> from 0 computes it.
\<close>

fun isF64 :: "f64 \<Rightarrow> bool" where
  "isF64 (Fin x) = (rnd x = Fin x)"
| "isF64 x = True"

definition sum64 :: "f64 list \<Rightarrow> f64" where
  "sum64 xs = foldl add64 (Fin 0) xs"

text \<open>What a day adds to the two sums of \<open>scoreAutonomy\<close>, by the value stored for it.\<close>

definition dayMain64 :: "dayval option \<Rightarrow> f64" where
  "dayMain64 v =
     (case v of Some r \<Rightarrow> (if truthyDay r then toNumber64 (mainOf64 r) else Fin 0) | None \<Rightarrow> Fin 0)"

definition daySub64 :: "dayval option \<Rightarrow> f64" where
  "daySub64 v =
     (case v of Some r \<Rightarrow> (if truthyDay r then toNumber64 (subOf64 r) else Fin 0) | None \<Rightarrow> Fin 0)"

text \<open>A log with one day, 15 June 2024, of 25 primary and 29 secondary hours.\<close>

definition tieLog :: usagelog where
  "tieLog = [''2024-06-15'' \<mapsto> Structured (Some (JNum 25)) (Some (JNum 29))]"

section \<open>Facts about the calendar\<close>

lemma div_step:
  fixes x k :: int
  assumes "0 < k"
  shows "(x + 1) div k = x div k + (if (x + 1) mod k = 0 then 1 else 0)"
proof -
  have x: "x = k * (x div k) + x mod k" by simp
  have r: "0 \<le> x mod k" "x mod k < k" using assms by simp_all
  show ?thesis
  proof (cases "x mod k + 1 = k")
    case True
    have e: "x + 1 = k * (x div k + 1) + 0"
    proof -
      have "x + 1 = k * (x div k) + (x mod k + 1)" using x by simp
      also have "\<dots> = k * (x div k) + k" using True by simp
      finally show ?thesis by (simp add: algebra_simps)
    qed
    have "(x + 1) div k = x div k + 1"
      by (rule int_div_pos_eq [OF e]) (use assms in auto)
    moreover have "(x + 1) mod k = 0"
      by (rule int_mod_pos_eq [OF e]) (use assms in auto)
    ultimately show ?thesis by simp
  next
    case False
    have e: "x + 1 = k * (x div k) + (x mod k + 1)" using x by simp
    have "(x + 1) div k = x div k"
      by (rule int_div_pos_eq [OF e]) (use r False in auto)
    moreover have "(x + 1) mod k = x mod k + 1"
      by (rule int_mod_pos_eq [OF e]) (use r False in auto)
    ultimately show ?thesis using r by simp
  qed
qed

lemma mod_shift:
  fixes y :: int
  shows "(y - 1968) mod 4 = y mod 4" "(y - 1900) mod 100 = y mod 100" "(y - 1600) mod 400 = y mod 400"
proof -
  have "(y - 1968) mod 4 = (y + 4 * (-492)) mod 4" by simp
  also have "\<dots> = y mod 4" by (rule mod_mult_self2)
  finally show "(y - 1968) mod 4 = y mod 4" .
  have "(y - 1900) mod 100 = (y + 100 * (-19)) mod 100" by simp
  also have "\<dots> = y mod 100" by (rule mod_mult_self2)
  finally show "(y - 1900) mod 100 = y mod 100" .
  have "(y - 1600) mod 400 = (y + 400 * (-4)) mod 400" by simp
  also have "\<dots> = y mod 400" by (rule mod_mult_self2)
  finally show "(y - 1600) mod 400 = y mod 400" .
qed

lemma leap_divides:
  fixes y :: int
  shows "y mod 400 = 0 \<Longrightarrow> y mod 100 = 0" "y mod 100 = 0 \<Longrightarrow> y mod 4 = 0"
proof -
  show "y mod 400 = 0 \<Longrightarrow> y mod 100 = 0"
    using mod_mod_cancel [of 100 400 y] by simp
  show "y mod 100 = 0 \<Longrightarrow> y mod 4 = 0"
    using mod_mod_cancel [of 4 100 y] by simp
qed

lemma dayFromYear_Suc: "dayFromYear (y + 1) = dayFromYear y + daysInYear y"
proof -
  define p4 p100 p400 where "p4 = (y mod 4 = 0)" and "p100 = (y mod 100 = 0)"
    and "p400 = (y mod 400 = 0)"
  define q4 q100 q400 where "q4 = (y - 1969) div 4" and "q100 = (y - 1901) div 100"
    and "q400 = (y - 1601) div 400"
  have a: "(y - 1968) div 4 = q4 + (if p4 then 1 else 0)"
    using div_step [of 4 "y - 1969"] by (simp add: mod_shift p4_def q4_def)
  have b: "(y - 1900) div 100 = q100 + (if p100 then 1 else 0)"
    using div_step [of 100 "y - 1901"] by (simp add: mod_shift p100_def q100_def)
  have c: "(y - 1600) div 400 = q400 + (if p400 then 1 else 0)"
    using div_step [of 400 "y - 1601"] by (simp add: mod_shift p400_def q400_def)
  have d: "p400 \<Longrightarrow> p100" "p100 \<Longrightarrow> p4"
    using leap_divides [of y] by (simp_all add: p4_def p100_def p400_def)
  have l: "daysInYear y = (if p4 \<and> (\<not> p100 \<or> p400) then 366 else 365)"
    by (simp add: daysInYear_def leapYear_def p4_def p100_def p400_def)
  have n: "dayFromYear (y + 1) =
      365 * (y - 1969) + (y - 1968) div 4 - (y - 1900) div 100 + (y - 1600) div 400"
    by (simp add: dayFromYear_def)
  have o: "dayFromYear y = 365 * (y - 1970) + q4 - q100 + q400"
    by (simp add: dayFromYear_def q4_def q100_def q400_def)
  show ?thesis
    unfolding n o l a b c using d by (cases p4; cases p100; cases p400; simp)
qed

lemma daysInYear_bounds: "365 \<le> daysInYear y" "daysInYear y \<le> 366"
  by (simp_all add: daysInYear_def)

lemma dayFromYear_mono: "y \<le> z \<Longrightarrow> dayFromYear y \<le> dayFromYear z"
proof (induction z rule: int_ge_induct)
  case base
  show ?case by simp
next
  case (step i)
  then show ?case using dayFromYear_Suc [of i] daysInYear_bounds [of i] by simp
qed

lemma dayFromYear_strict: "y < z \<Longrightarrow> dayFromYear y < dayFromYear z"
  using dayFromYear_mono [of "y + 1" z] dayFromYear_Suc [of y] daysInYear_bounds [of y] by simp

lemma dayFromYear_upper: "1970 \<le> y \<Longrightarrow> dayFromYear y \<le> 366 * (y - 1970)"
proof (induction y rule: int_ge_induct)
  case base
  show ?case by (simp add: dayFromYear_def)
next
  case (step i)
  then show ?case using dayFromYear_Suc [of i] daysInYear_bounds [of i] by simp
qed

lemma dayFromYear_lower: "y \<le> 1970 \<Longrightarrow> dayFromYear y \<le> 365 * (y - 1970)"
proof (induction y rule: int_le_induct)
  case base
  show ?case by (simp add: dayFromYear_def)
next
  case (step i)
  then show ?case using dayFromYear_Suc [of "i - 1"] daysInYear_bounds [of "i - 1"] by simp
qed

lemma yearFromDay_start:
  "dayFromYear (1970 + (if 0 \<le> n then n div 366 else n div 365)) \<le> n"
proof (cases "0 \<le> n")
  case True
  then have "0 \<le> n div 366" by simp
  then have "dayFromYear (1970 + n div 366) \<le> 366 * (n div 366)"
    using dayFromYear_upper [of "1970 + n div 366"] by simp
  also have "\<dots> \<le> n" by  (simp add: mult.commute [of 366])
  finally show ?thesis using True by simp
next
  case False
  then have "n div 365 \<le> 0" by simp
  then have "dayFromYear (1970 + n div 365) \<le> 365 * (n div 365)"
    using dayFromYear_lower [of "1970 + n div 365"] by simp
  also have "\<dots> \<le> n" by (simp add: mult.commute [of 365])
  finally show ?thesis using False by simp
qed

lemma yearUp_spec:
  "start = dayFromYear y \<Longrightarrow> start \<le> n \<Longrightarrow>
     dayFromYear (yearUp y start n) \<le> n \<and> n < dayFromYear (yearUp y start n + 1)"
proof (induction y start n rule: yearUp.induct)
  case (1 y start day)
  show ?case
  proof (cases "start + daysInYear y \<le> day")
    case True
    have "start + daysInYear y = dayFromYear (y + 1)"
      using "1.prems" by (simp add: dayFromYear_Suc)
    from "1.IH" [OF True this True] True show ?thesis
      by (subst (1 2) yearUp.simps) simp
  next
    case False
    with "1.prems" show ?thesis
      by (subst (1 2) yearUp.simps) (simp add: dayFromYear_Suc)
  qed
qed

lemma yearFromDay_spec:
  "dayFromYear (yearFromDay n) \<le> n \<and> n < dayFromYear (yearFromDay n + 1)"
  unfolding yearFromDay_def Let_def by (rule yearUp_spec [OF refl yearFromDay_start])

lemma yearFromDay_unique:
  assumes "dayFromYear y \<le> n" "n < dayFromYear (y + 1)"
  shows "yearFromDay n = y"
proof (rule ccontr)
  assume ne: "yearFromDay n \<noteq> y"
  let ?z = "yearFromDay n"
  from yearFromDay_spec [of n] have z: "dayFromYear ?z \<le> n" "n < dayFromYear (?z + 1)" by simp_all
  from ne consider "?z < y" | "y < ?z" by linarith
  then show False
  proof cases
    case 1
    then have "dayFromYear (?z + 1) \<le> dayFromYear y" by (intro dayFromYear_mono) simp
    with z assms show False by simp
  next
    case 2
    then have "dayFromYear (y + 1) \<le> dayFromYear ?z" by (intro dayFromYear_mono) simp
    with z assms show False by simp
  qed
qed

lemma monthOfYearDay_range: "0 \<le> monthOfYearDay l dw \<and> monthOfYearDay l dw \<le> 11"
  by (simp add: monthOfYearDay_def Let_def)

lemma makeDay_fields:
  "makeDay (yearFromDay n) (monthFromDay n) (dateFromDay n + k) = n + k"
proof -
  have r: "0 \<le> monthFromDay n" "monthFromDay n < 12"
    using monthOfYearDay_range [of "leapYear (yearFromDay n)" "dayWithinYear n"]
    by (simp_all add: monthFromDay_def)
  then have "monthFromDay n div 12 = 0" "monthFromDay n mod 12 = monthFromDay n"
    by simp_all
  then show ?thesis
    by (simp add: makeDay_def Let_def dateFromDay_def dayWithinYear_def)
qed

lemma dayWithinYear_range: "0 \<le> dayWithinYear n \<and> dayWithinYear n < daysInYear (yearFromDay n)"
  using yearFromDay_spec [of n] by (simp add: dayWithinYear_def dayFromYear_Suc)

lemma dateFromDay_range: "1 \<le> dateFromDay n \<and> dateFromDay n \<le> 31"
proof -
  define l where "l = leapYear (yearFromDay n)"
  define dw where "dw = dayWithinYear n"
  have "0 \<le> dw" "dw < (if l then 366 else 365)"
    using dayWithinYear_range [of n] by (simp_all add: dw_def l_def daysInYear_def)
  then have "1 \<le> dw - monthStart l (monthOfYearDay l dw) + 1 \<and>
        dw - monthStart l (monthOfYearDay l dw) + 1 \<le> 31"
    by (cases l) (simp_all add: monthStart_def monthOfYearDay_def Let_def)
  then show ?thesis by (simp add: dateFromDay_def monthFromDay_def l_def dw_def)
qed

lemma fields_makeDay:
  assumes "validDate y m d"
  shows "yearFromDay (makeDay y (m - 1) d) = y"
    and "monthFromDay (makeDay y (m - 1) d) = m - 1"
    and "dateFromDay (makeDay y (m - 1) d) = d"
proof -
  define l where "l = leapYear y"
  define dw where "dw = monthStart l (m - 1) + d - 1"
  have m: "1 \<le> m" "m \<le> 12" and d: "1 \<le> d" "d \<le> daysInMonth y m"
    using assms by (simp_all add: validDate_def)
  then have dm: "(m - 1) div 12 = 0" "(m - 1) mod 12 = m - 1" by simp_all
  have md: "makeDay y (m - 1) d = dayFromYear y + dw"
    by (simp add: makeDay_def Let_def dm dw_def l_def)
  consider "m = 1" | "m = 2" | "m = 3" | "m = 4" | "m = 5" | "m = 6" | "m = 7" | "m = 8"
    | "m = 9" | "m = 10" | "m = 11" | "m = 12" using m by atomize_elim presburger
  then have mo: "monthOfYearDay l dw = m - 1 \<and> 0 \<le> dw \<and> dw < (if l then 366 else 365)"
    using d by cases (auto simp add: dw_def monthStart_def monthOfYearDay_def daysInMonth_def Let_def l_def split: if_splits)
  have "dayFromYear y \<le> dayFromYear y + dw" "dayFromYear y + dw < dayFromYear (y + 1)"
    using mo by (simp_all add: dayFromYear_Suc daysInYear_def l_def)
  then show y: "yearFromDay (makeDay y (m - 1) d) = y"
    unfolding md by (rule yearFromDay_unique)
  have dwy: "dayWithinYear (makeDay y (m - 1) d) = dw"
    using y by (simp add: dayWithinYear_def md)
  show mm: "monthFromDay (makeDay y (m - 1) d) = m - 1"
    using mo by (simp add: monthFromDay_def y dwy l_def)
  show "dateFromDay (makeDay y (m - 1) d) = d"
    by (simp add: dateFromDay_def y dwy mm) (simp add: dw_def l_def)
qed

lemma split_dash_nonempty: "split_dash s \<noteq> []"
  by (induction s) (auto split: list.splits)

lemma split_dash_nodash: "CHR ''-'' \<notin> set a \<Longrightarrow> split_dash a = [a]"
  by (induction a) auto

lemma split_dash_append:
  "CHR ''-'' \<notin> set a \<Longrightarrow> split_dash (a @ CHR ''-'' # r) = a # split_dash r"
  by (induction a) auto

lemma digit_cases:
  "k < 10 \<Longrightarrow> k = 0 \<or> k = 1 \<or> k = 2 \<or> k = 3 \<or> k = 4 \<or> k = 5 \<or> k = 6 \<or> k = 7
     \<or> k = 8 \<or> k = (9::nat)"
  by arith

lemma digitVal_digitChar: "k < 10 \<Longrightarrow> digitVal (digitChar k) = Some k"
  using digit_cases [of k] by (auto simp: digitVal_def digitChar_def)

lemma digitChar_nodash: "k < 10 \<Longrightarrow> digitChar k \<noteq> CHR ''-''"
  using digit_cases [of k] by (auto simp: digitChar_def)

lemma digitsValue_snoc:
  "digitsValue acc (xs @ [c]) =
     (case digitsValue acc xs of
        None \<Rightarrow> None
      | Some v \<Rightarrow> (case digitVal c of None \<Rightarrow> None | Some k \<Rightarrow> Some (10 * v + k)))"
  by (induction xs arbitrary: acc) (auto split: option.splits)

lemma digitsValue_jsDigits: "digitsValue 0 (jsDigits n) = Some n"
proof (induction n rule: jsDigits.induct)
  case (1 n)
  show ?case
  proof (cases "n < 10")
    case True
    then show ?thesis by (subst jsDigits.simps) (simp add: digitVal_digitChar)
  next
    case False
    have "digitsValue 0 (jsDigits (n div 10) @ [digitChar (n mod 10)]) = Some n"
      using "1.IH" [OF False] by (simp add: digitsValue_snoc digitVal_digitChar)
    with False show ?thesis by (subst jsDigits.simps) simp
  qed
qed

lemma digitsValue_zeros: "digitsValue 0 (replicate j CHR ''0'' @ s) = digitsValue 0 s"
  by (induction j) (simp_all add: digitVal_def)

lemma jsNumber_padStart: "jsNumber (padStart w (jsDigits n)) = Some (int n)"
  by (simp add: jsNumber_def padStart_def digitsValue_zeros digitsValue_jsDigits)

lemma jsDigits_nodash: "CHR ''-'' \<notin> set (jsDigits n)"
proof (induction n rule: jsDigits.induct)
  case (1 n)
  show ?case
  proof (cases "n < 10")
    case True
    then show ?thesis using digitChar_nodash [of n] by (subst jsDigits.simps) auto
  next
    case False
    then show ?thesis
      using "1.IH" [OF False] digitChar_nodash [of "n mod 10"]
      by (subst jsDigits.simps) auto
  qed
qed

lemma padStart_nodash: "CHR ''-'' \<notin> set (padStart w (jsDigits n))"
  using jsDigits_nodash [of n] by (auto simp: padStart_def)

lemma jsDigits_length: "1 \<le> length (jsDigits n)"
  by (subst jsDigits.simps) simp

lemma jsDigits_length4: "1000 \<le> n \<Longrightarrow> 4 \<le> length (jsDigits n)"
proof -
  assume n: "1000 \<le> n"
  define n1 n2 n3 where "n1 = n div 10" and "n2 = n1 div 10" and "n3 = n2 div 10"
  have g: "\<not> n < 10" "\<not> n1 < 10" "\<not> n2 < 10"
    using n by (simp_all add: n1_def n2_def)
  have a: "jsDigits n = jsDigits n1 @ [digitChar (n mod 10)]"
    using g by (subst jsDigits.simps) (simp add: n1_def)
  have b: "jsDigits n1 = jsDigits n2 @ [digitChar (n1 mod 10)]"
    using g by (subst jsDigits.simps) (simp add: n2_def)
  have c: "jsDigits n2 = jsDigits n3 @ [digitChar (n2 mod 10)]"
    using g by (subst jsDigits.simps) (simp add: n3_def)
  show ?thesis
    using jsDigits_length [of n3] unfolding a b c by simp
qed

lemma read_parts:
  assumes "0 \<le> y" "0 \<le> m" "0 \<le> d"
  shows "map jsNumber (split_dash (padStart a (jsString (Some y)) @ ''-''
           @ padStart b (jsString (Some m)) @ ''-'' @ padStart c (jsString (Some d)))) =
         [Some y, Some m, Some d]"
proof -
  have "split_dash (padStart a (jsDigits (nat y)) @ CHR ''-'' #
          padStart b (jsDigits (nat m)) @ CHR ''-'' # padStart c (jsDigits (nat d))) =
        [padStart a (jsDigits (nat y)), padStart b (jsDigits (nat m)), padStart c (jsDigits (nat d))]"
    by (simp add: split_dash_append split_dash_nodash padStart_nodash)
  then show ?thesis using assms by (simp add: jsString_def jsNumber_padStart)
qed

lemma padStart_0: "padStart 0 s = s"
  by (simp add: padStart_def)

lemma addDays_parts:
  assumes p: "map jsNumber (split_dash s) = [Some y, Some m, Some d]"
    and c: "\<bar>makeDay (if 0 \<le> y \<and> y \<le> 99 then 1900 + y else y) (m - 1) d\<bar> \<le> 100000000"
      "\<bar>makeDay (if 0 \<le> y \<and> y \<le> 99 then 1900 + y else y) (m - 1) d + k\<bar> \<le> 100000000"
  shows "addDays s k = jsDate (makeDay (if 0 \<le> y \<and> y \<le> 99 then 1900 + y else y) (m - 1) d + k)"
proof -
  define N where "N = makeDay (if 0 \<le> y \<and> y \<le> 99 then 1900 + y else y) (m - 1) d"
  from p obtain a b c where s: "split_dash s = [a, b, c]"
    and n: "jsNumber a = Some y" "jsNumber b = Some m" "jsNumber c = Some d"
    by (auto simp: map_eq_Cons_conv)
  have e: "element (split_dash s) 0 = Some y" "element (split_dash s) (Suc 0) = Some m"
    "element (split_dash s) 2 = Some d"
    by (simp_all add: element_def s n)
  have nd: "newDate (Some y) (Some (m - 1)) (Some d) = Some N"
    using c unfolding newDate_def timeClip_def N_def by simp
  have sd: "setDate (Some N) (Some (dateFromDay N + k)) = Some (N + k)"
    using c by (simp add: setDate_def makeDay_fields timeClip_def N_def)
  show ?thesis
    by (simp add: addDays_def Let_def e nd getDate_def sd getFullYear_def getMonth_def jsDate_def
        N_def [symmetric])
qed

lemma dayFromYear_values:
  "dayFromYear 100 = - 683003" "dayFromYear 1000 = - 354285" "dayFromYear 10000 = 2932897"
  by (simp_all add: dayFromYear_def)

lemma yearFromDay_ge: "dayFromYear y \<le> n \<Longrightarrow> y \<le> yearFromDay n"
proof (rule ccontr)
  assume a: "dayFromYear y \<le> n" and "\<not> y \<le> yearFromDay n"
  then have "yearFromDay n + 1 \<le> y" by simp
  then have "dayFromYear (yearFromDay n + 1) \<le> dayFromYear y" by (rule dayFromYear_mono)
  with yearFromDay_spec [of n] a show False by simp
qed

lemma yearFromDay_lt: "n < dayFromYear y \<Longrightarrow> yearFromDay n < y"
proof (rule ccontr)
  assume a: "n < dayFromYear y" and "\<not> yearFromDay n < y"
  then have "dayFromYear y \<le> dayFromYear (yearFromDay n)" by (intro dayFromYear_mono) simp
  with yearFromDay_spec [of n] a show False by simp
qed

lemma yearFromDay_mono: "a \<le> b \<Longrightarrow> yearFromDay a \<le> yearFromDay b"
  using yearFromDay_ge [of "yearFromDay a" b] yearFromDay_spec [of a] by simp

lemma monthFromDay_range: "0 \<le> monthFromDay n \<and> monthFromDay n \<le> 11"
  using monthOfYearDay_range by (simp add: monthFromDay_def)

lemma read_jsDate:
  assumes "0 \<le> yearFromDay n"
  shows "map jsNumber (split_dash (jsDate n)) =
     [Some (yearFromDay n), Some (monthFromDay n + 1), Some (dateFromDay n)]"
proof -
  have "0 \<le> monthFromDay n + 1" "0 \<le> dateFromDay n"
    using monthFromDay_range [of n] dateFromDay_range [of n] by simp_all
  from read_parts [OF assms this, of 0 2 2] show ?thesis
    by (simp add: jsDate_def padStart_0)
qed

lemma makeDay_of_fields: "makeDay (yearFromDay n) (monthFromDay n) (dateFromDay n) = n"
  using makeDay_fields [of n 0] by simp

lemma jsDate_inj:
  assumes "0 \<le> yearFromDay a" "0 \<le> yearFromDay b" "jsDate a = jsDate b"
  shows "a = b"
proof -
  have "[Some (yearFromDay a), Some (monthFromDay a + 1), Some (dateFromDay a)] =
        [Some (yearFromDay b), Some (monthFromDay b + 1), Some (dateFromDay b)]"
    using read_jsDate [OF assms(1)] read_jsDate [OF assms(2)] assms(3) by simp
  then have "yearFromDay a = yearFromDay b" "monthFromDay a = monthFromDay b"
    "dateFromDay a = dateFromDay b" by simp_all
  then have "makeDay (yearFromDay a) (monthFromDay a) (dateFromDay a) =
      makeDay (yearFromDay b) (monthFromDay b) (dateFromDay b)" by (simp only:)
  then show ?thesis by (simp only: makeDay_of_fields)
qed

lemma addDays_jsDate:
  assumes "100 \<le> yearFromDay n" "\<bar>n\<bar> \<le> 100000000" "\<bar>n + k\<bar> \<le> 100000000"
  shows "addDays (jsDate n) k = jsDate (n + k)"
proof -
  have y: "0 \<le> yearFromDay n" "\<not> (0 \<le> yearFromDay n \<and> yearFromDay n \<le> 99)"
    using assms(1) by simp_all
  have "addDays (jsDate n) k =
      jsDate (makeDay (if 0 \<le> yearFromDay n \<and> yearFromDay n \<le> 99 then 1900 + yearFromDay n
        else yearFromDay n) (monthFromDay n + 1 - 1) (dateFromDay n) + k)"
    by (rule addDays_parts [OF read_jsDate [OF y(1)]])
      (use y assms in \<open>simp_all add: makeDay_of_fields\<close>)
  then show ?thesis using y by (simp add: makeDay_of_fields)
qed

lemma padStart_long: "w \<le> length s \<Longrightarrow> padStart w s = s"
  by (simp add: padStart_def)

lemma anchor_day:
  assumes "anchorDate today y m d"
  shows "today = jsDate (makeDay y (m - 1) d)"
    and "yearFromDay (makeDay y (m - 1) d) = y"
    and "- 354285 \<le> makeDay y (m - 1) d" and "makeDay y (m - 1) d < 2932897"
proof -
  have v: "validDate y m d" and y: "1000 \<le> y" "y \<le> 9999" and t: "today = isoDate y m d"
    using assms by (simp_all add: anchorDate_def)
  note f = fields_makeDay [OF v]
  have "4 \<le> length (jsDigits (nat y))" using y by (intro jsDigits_length4) simp
  then have "padStart 4 (jsString (Some y)) = jsString (Some y)"
    using y by (simp add: jsString_def padStart_long)
  then show "today = jsDate (makeDay y (m - 1) d)"
    by (simp add: t isoDate_def jsDate_def f)
  show "yearFromDay (makeDay y (m - 1) d) = y" by (rule f)
  have "dayFromYear 1000 \<le> dayFromYear y" "dayFromYear (y + 1) \<le> dayFromYear 10000"
    using y by (simp_all add: dayFromYear_mono)
  moreover have "dayFromYear y \<le> makeDay y (m - 1) d" "makeDay y (m - 1) d < dayFromYear (y + 1)"
    using yearFromDay_spec [of "makeDay y (m - 1) d"] by (simp_all add: f)
  ultimately show "- 354285 \<le> makeDay y (m - 1) d" "makeDay y (m - 1) d < 2932897"
    by (simp_all add: dayFromYear_values)
qed

lemma addDays_anchor:
  assumes "anchorDate today y m d" "- 90000000 \<le> k" "k \<le> 90000000"
  shows "addDays today k = jsDate (makeDay y (m - 1) d + k)"
proof -
  note a = anchor_day [OF assms(1)]
  have "addDays (jsDate (makeDay y (m - 1) d)) k = jsDate (makeDay y (m - 1) d + k)"
    using a assms by (intro addDays_jsDate) (simp_all add: anchorDate_def)
  then show ?thesis using a(1) by simp
qed


lemmas date_eval = jsDate_def yearFromDay_def yearUp.simps dayFromYear_def daysInYear_def
  leapYear_def Let_def monthFromDay_def dayWithinYear_def monthOfYearDay_def dateFromDay_def
  monthStart_def jsString_def jsDigits.simps digitChar_def padStart_def makeDay_def

section \<open>Facts about the scorers\<close>

lemma lookup_cases:
  "lookup byDate d = None \<or> (\<exists>r. lookup byDate d = Some r \<and> byDate d = Some r \<and> truthyRec r)"
  by (auto simp: lookup_def split: option.splits)

lemma consistencyBody_lookup:
  "consistencyBody (lookup byDate d) = (\<lambda>a. a + (if dayActive (byDate d) then 1 else 0))"
  by (auto simp: fun_eq_iff consistencyBody_def lookup_def dayActive_def dayHours_def gtZero_def
      split: option.splits)

lemma autonomyBody_lookup:
  "autonomyBody (lookup byDate d) =
     (\<lambda>acc. (fst acc + dayMain (byDate d), snd acc + daySub (byDate d)))"
  by (auto simp: fun_eq_iff autonomyBody_def lookup_def dayMain_def daySub_def split: option.splits)

lemma strictEqZero_orZero: "strictEqZero (orZero x) = (toNumber (orZero x) = 0)"
  by (cases x; cases "the x") (auto simp: strictEqZero_def orZero_def)

lemma strictEqZero_mainOf: "strictEqZero (mainOf r) = (toNumber (mainOf r) = 0)"
  by (cases r) (simp_all add: strictEqZero_orZero, simp add: strictEqZero_def)

lemma ghostBody_lookup:
  "ghostBody (lookup byDate d) =
     (\<lambda>acc. (fst acc + (if dayGhost (byDate d) then 1 else 0),
        snd acc + (if dayBusy (byDate d) then 1 else 0)))"
  by (auto simp: fun_eq_iff ghostBody_def lookup_def dayGhost_def dayBusy_def dayMain_def daySub_def
      gtZero_def Let_def strictEqZero_mainOf split: option.splits)

lemma volumeBody_lookup:
  "volumeBody (lookup byDate d) = (\<lambda>t. t + dayHours (byDate d))"
  by (auto simp: fun_eq_iff volumeBody_def lookup_def dayHours_def split: option.splits)

lemma fold_sum:
  fixes g :: "nat \<Rightarrow> 'a::comm_monoid_add"
  shows "fold (\<lambda>i a. a + g i) [0..<n] a0 = a0 + (\<Sum>i<n. g i)"
  by (induction n) (simp_all add: add.assoc)

lemma fold_sum2:
  fixes g :: "nat \<Rightarrow> 'a::comm_monoid_add" and h :: "nat \<Rightarrow> 'b::comm_monoid_add"
  shows "fold (\<lambda>i acc. (fst acc + g i, snd acc + h i)) [0..<n] (a0, b0) =
     (a0 + (\<Sum>i<n. g i), b0 + (\<Sum>i<n. h i))"
  by (induction n) (simp_all add: add.assoc)

lemma consistency_fold:
  "fold (\<lambda>i. consistencyBody (dayValue byDate today i)) [0..<n] 0 =
     (\<Sum>i<n. if dayActive (byDate (addDays today (- int i))) then 1 else 0)"
  using fold_sum [of "\<lambda>i. if dayActive (byDate (addDays today (- int i))) then 1 else (0::nat)" n 0]
  by (simp add: dayValue_def consistencyBody_lookup)

lemma autonomy_fold:
  "fold (\<lambda>i. autonomyBody (dayValue byDate today i)) [0..<n] (0, 0) =
     (\<Sum>i<n. dayMain (byDate (addDays today (- int i))),
      \<Sum>i<n. daySub (byDate (addDays today (- int i))))"
  using fold_sum2 [of "\<lambda>i. dayMain (byDate (addDays today (- int i)))"
      "\<lambda>i. daySub (byDate (addDays today (- int i)))" n 0 0]
  by (simp add: dayValue_def autonomyBody_lookup)

lemma ghost_fold:
  "fold (\<lambda>i. ghostBody (dayValue byDate today i)) [0..<n] (0, 0) =
     (\<Sum>i<n. if dayGhost (byDate (addDays today (- int i))) then 1 else 0,
      \<Sum>i<n. if dayBusy (byDate (addDays today (- int i))) then 1 else 0)"
  using fold_sum2 [of "\<lambda>i. if dayGhost (byDate (addDays today (- int i))) then 1 else (0::nat)"
      "\<lambda>i. if dayBusy (byDate (addDays today (- int i))) then 1 else (0::nat)" n 0 0]
  by (simp add: dayValue_def ghostBody_lookup)

lemma volume_fold:
  "fold (\<lambda>i. volumeBody (dayValue byDate today i)) [0..<n] 0 =
     (\<Sum>i<n. dayHours (byDate (addDays today (- int i))))"
  using fold_sum [of "\<lambda>i. dayHours (byDate (addDays today (- int i)))" n 0]
  by (simp add: dayValue_def volumeBody_lookup)




lemma jsRound_bounds: "0 \<le> x \<Longrightarrow> x \<le> real_of_int b \<Longrightarrow> 0 \<le> jsRound x \<and> jsRound x \<le> b"
  unfolding jsRound_def by (simp add: floor_le_iff le_floor_iff) 








lemma window_day:
  assumes "anchorDate today y m d" "i \<le> 1000"
  shows "addDays today (- int i) = jsDate (makeDay y (m - 1) d - int i)"
  using addDays_anchor [OF assms(1), of "- int i"] assms(2) by simp

lemma window_year:
  assumes "anchorDate today y m d" "i \<le> 1000"
  shows "100 \<le> yearFromDay (makeDay y (m - 1) d - int i)"
  using anchor_day(3) [OF assms(1)] assms(2)
  by (intro yearFromDay_ge) (simp add: dayFromYear_values)

lemma window_inj:
  assumes a: "anchorDate today y m d" and i: "i \<le> 1000" and j: "j \<le> 1000"
    and e: "addDays today (- int i) = addDays today (- int j)"
  shows "i = j"
proof -
  have "jsDate (makeDay y (m - 1) d - int i) = jsDate (makeDay y (m - 1) d - int j)"
    using e by (simp add: window_day [OF a i] window_day [OF a j])
  then have "makeDay y (m - 1) d - int i = makeDay y (m - 1) d - int j"
    using window_year [OF a i] window_year [OF a j] by (intro jsDate_inj) simp_all
  then show ?thesis by simp
qed

lemma window_today:
  assumes "anchorDate today y m d"
  shows "addDays today (- int 0) = today"
  using window_day [OF assms, of 0] anchor_day(1) [OF assms] by simp

lemma windowDates_distinct:
  assumes "anchorDate today y m d" "w \<le> 1000"
  shows "distinct (windowDates today w)"
  unfolding windowDates_def distinct_map
proof
  show "distinct [0..<w]" by simp
  show "inj_on (\<lambda>i. addDays today (- int i)) (set [0..<w])"
    using assms(2) by (intro inj_onI window_inj [OF assms(1)]) auto
qed

lemma single_day:
  assumes "anchorDate today y m d" "i < 30"
  shows "[today \<mapsto> r] (addDays today (- int i)) = (if i = 0 then Some r else None)"
proof (cases "i = 0")
  case True
  then show ?thesis using window_today [OF assms(1)] by simp
next
  case False
  have "addDays today (- int i) \<noteq> today"
  proof
    assume "addDays today (- int i) = today"
    then have "addDays today (- int i) = addDays today (- int 0)"
      using window_today [OF assms(1)] by simp
    from window_inj [OF assms(1) _ _ this] assms(2) False show False by simp
  qed
  with False show ?thesis by simp
qed


lemma sample_anchor: "anchorDate ''2024-06-15'' 2024 6 15"
  by (simp add: anchorDate_def isoDate_def validDate_def daysInMonth_def date_eval)

lemma scoreAutonomy_sums:
  "mainHours (scoreAutonomy byDate today 30) = (\<Sum>i<30. dayMain (byDate (addDays today (- int i))))"
  "subHours (scoreAutonomy byDate today 30) = (\<Sum>i<30. daySub (byDate (addDays today (- int i))))"
  by (simp_all add: scoreAutonomy_def autonomy_fold Let_def)

lemma scoreAutonomy_ratio:
  "ratio (scoreAutonomy byDate today 30) =
     Some (if mainHours (scoreAutonomy byDate today 30) > 0
           then subHours (scoreAutonomy byDate today 30) / mainHours (scoreAutonomy byDate today 30)
           else if subHours (scoreAutonomy byDate today 30) > 0 then 2 else 0)"
  by (simp add: scoreAutonomy_def Let_def jsDivide_def)

lemma scoreAutonomy_points:
  "a_points (scoreAutonomy byDate today 30) =
     map_option (\<lambda>r. min 25 (jsRound (r * 12.5))) (ratio (scoreAutonomy byDate today 30))"
  by (simp add: scoreAutonomy_def Let_def)

lemma streakLoop_stop: "lookup byDate d = None \<Longrightarrow> streakLoop byDate d s = Some s"
  by (subst streakLoop.simps) simp

lemma streakLoop_zero:
  "lookup byDate d = Some v \<Longrightarrow> strictEqZero (activityOf v) \<Longrightarrow> streakLoop byDate d s = Some s"
  by (subst streakLoop.simps) simp

lemma streakLoop_step:
  "lookup byDate d = Some v \<Longrightarrow> \<not> strictEqZero (activityOf v) \<Longrightarrow>
     streakLoop byDate d s = streakLoop byDate (addDays d (- 1)) (s + 1)"
  by (subst streakLoop.simps) simp

lemma sample_days:
  "makeDay 2024 5 15 = 19889" "jsDate 19890 = ''2024-06-16''" "jsDate 19888 = ''2024-06-14''"
  "jsDate 19859 = ''2024-05-16''" "jsDate 19889 = ''2024-06-15''"
  by (simp_all add: date_eval)

lemma sample_yesterday: "addDays ''2024-06-15'' (- 1) = ''2024-06-14''"
  using window_day [OF sample_anchor, of 1] by (simp add: sample_days)

lemma oneDayLog_streak: "computeStreak oneDayLog ''2024-06-15'' = Some 1"
proof -
  have a: "lookup oneDayLog ''2024-06-15'' = Some (Structured (Some (JNum 48)) (Some (JNum 71)))"
    by (simp add: lookup_def oneDayLog_def)
  have b: "lookup oneDayLog ''2024-06-14'' = None"
    by (simp add: lookup_def oneDayLog_def)
  have "streakLoop oneDayLog ''2024-06-15'' 0 = streakLoop oneDayLog ''2024-06-14'' (0 + 1)"
    using streakLoop_step [OF a, of 0]
    by (simp add: strictEqZero_def jsPlus_def orZero_def sample_yesterday)
  also have "\<dots> = Some 1" using streakLoop_stop [OF b, of "0 + 1"] by simp
  finally show ?thesis by (simp add: computeStreak_def a)
qed

lemma empty_day: "dayMain None = 0" "daySub None = 0" "dayHours None = 0"
  "\<not> dayActive None" "\<not> dayBusy None" "\<not> dayGhost None"
  by (simp_all add: dayMain_def daySub_def dayHours_def dayActive_def dayBusy_def dayGhost_def)

lemma empty_scores:
  "scoreConsistency Map.empty today 30 = \<lparr>raw = Some 0, c_points = Some 0, c_activeDays = 0, c_window = 30\<rparr>"
  "scoreAutonomy Map.empty today 30 = \<lparr>ratio = Some 0, a_points = Some 0, mainHours = 0, subHours = 0\<rparr>"
  "scoreGhostDays Map.empty today 30 = \<lparr>ghostDays = 0, g_activeDays = 0, pct = Some 0, g_points = Some 0\<rparr>"
  "scoreVolume Map.empty today 30 = \<lparr>totalHours = 0, v_points = 0\<rparr>"
  by (simp_all add: scoreConsistency_def scoreAutonomy_def scoreGhostDays_def scoreVolume_def
      consistency_fold autonomy_fold ghost_fold volume_fold empty_day Let_def jsDivide_def jsRound_def)

lemma empty_streak: "computeStreak Map.empty today = Some 0"
  by (simp add: computeStreak_def lookup_def streakLoop_stop)

lemma scoreGhostDays_fields:
  "pct (scoreGhostDays byDate today 30) =
     Some (if g_activeDays (scoreGhostDays byDate today 30) > 0
           then real (ghostDays (scoreGhostDays byDate today 30)) /
                real (g_activeDays (scoreGhostDays byDate today 30))
           else 0)"
  "g_points (scoreGhostDays byDate today 30) =
     map_option (\<lambda>p. min 20 (jsRound (p * 25))) (pct (scoreGhostDays byDate today 30))"
  by (simp_all add: scoreGhostDays_def Let_def jsDivide_def)

lemma scoreConsistency_fields:
  "raw (scoreConsistency byDate today 30) =
     Some (real (c_activeDays (scoreConsistency byDate today 30)) / 30)"
  "c_points (scoreConsistency byDate today 30) =
     map_option (\<lambda>p. jsRound (p * 30)) (raw (scoreConsistency byDate today 30))"
  by (simp_all add: scoreConsistency_def Let_def jsDivide_def)

lemma scoreVolume_fields:
  "v_points (scoreVolume byDate today 30) =
     min 15 (jsRound (totalHours (scoreVolume byDate today 30) / 100 * 15))"
  by (simp add: scoreVolume_def Let_def)

lemma streakLoop_counts:
  "dayCounts (byDate d) \<Longrightarrow>
     streakLoop byDate d s = streakLoop byDate (addDays d (- 1)) (s + 1)"
  by (subst streakLoop.simps) (auto simp: dayCounts_def lookup_def split: option.splits)

lemma streakLoop_stops: "\<not> dayCounts (byDate d) \<Longrightarrow> streakLoop byDate d s = Some s"
  by (subst streakLoop.simps) (auto simp: dayCounts_def lookup_def split: option.splits)

lemma streakLoop_half:
  assumes c: "\<And>k. dayCounts (b k) = dayCounts (b' k)"
    and r: "streakLoop b d s = Some y"
  shows "streakLoop b' d s = Some y"
proof -
  have "b = b \<longrightarrow> streakLoop b' d s = Some y"
  proof (rule streakLoop.raw_induct
      [where P = "\<lambda>b0 d s y. b0 = b \<longrightarrow> streakLoop b' d s = Some y", OF _ r])
    fix f b0 d s y
    assume IH: "\<And>a d s y. f a d s = Some y \<Longrightarrow> a = b \<longrightarrow> streakLoop b' d s = Some y"
      and body: "(case lookup b0 d of None \<Rightarrow> Some s
          | Some v \<Rightarrow> if strictEqZero (activityOf v) then Some s
              else f b0 (addDays d (- 1)) (s + 1)) = Some y"
    show "b0 = b \<longrightarrow> streakLoop b' d s = Some y"
    proof
      assume e: "b0 = b"
      show "streakLoop b' d s = Some y"
      proof (cases "dayCounts (b d)")
        case True
        then obtain v where v: "lookup b d = Some v" "\<not> strictEqZero (activityOf v)"
          by (auto simp: dayCounts_def lookup_def split: option.splits)
        with body e have "f b (addDays d (- 1)) (s + 1) = Some y" by simp
        from IH [OF this] have "streakLoop b' (addDays d (- 1)) (s + 1) = Some y" by simp
        moreover have "dayCounts (b' d)" using True c by simp
        ultimately show ?thesis by (simp add: streakLoop_counts)
      next
        case False
        then have "y = s"
          using body e
          by (auto simp: dayCounts_def lookup_def split: option.splits if_splits)
        moreover have "\<not> dayCounts (b' d)" using False c by simp
        ultimately show ?thesis by (simp add: streakLoop_stops)
      qed
    qed
  qed
  then show ?thesis by simp
qed

lemma streakLoop_cong:
  assumes "\<And>k. dayCounts (b k) = dayCounts (b' k)"
  shows "streakLoop b d s = streakLoop b' d s"
proof (cases "streakLoop b d s")
  case None
  show ?thesis
  proof (cases "streakLoop b' d s")
    case (Some y)
    from streakLoop_half [of b' b, OF _ Some] assms None show ?thesis by simp
  qed (simp add: None)
next
  case (Some y)
  from streakLoop_half [of b b', OF _ Some] assms Some show ?thesis by simp
qed

lemma sample_day_before_yesterday: "addDays ''2024-06-14'' (- 1) = ''2024-06-13''"
proof -
  have "100 \<le> yearFromDay 19888" by (simp add: date_eval)
  from addDays_jsDate [OF this, of "- 1"] have "addDays (jsDate 19888) (- 1) = jsDate 19887"
    by simp
  moreover have "jsDate 19887 = ''2024-06-13''" by (simp add: date_eval)
  ultimately show ?thesis by (simp add: sample_days)
qed

lemma zeroTodayLog_streak: "computeStreak zeroTodayLog ''2024-06-15'' = Some 0"
proof -
  have l: "lookup zeroTodayLog ''2024-06-15'' = Some (Structured (Some (JNum 0)) (Some (JNum 0)))"
    by (simp add: lookup_def zeroTodayLog_def)
  have "\<not> dayCounts (zeroTodayLog ''2024-06-15'')"
    by (simp add: dayCounts_def zeroTodayLog_def strictEqZero_def jsPlus_def orZero_def)
  then show ?thesis by (simp add: computeStreak_def streakLoop_stops l)
qed

lemma yesterday_streak:
  assumes "lookup b ''2024-06-15'' = None" "b ''2024-06-14'' = Some (Legacy (JNum 1))"
    "b ''2024-06-13'' = None"
  shows "computeStreak b ''2024-06-15'' = Some 1"
proof -
  have "dayCounts (b ''2024-06-14'')"
    by (simp add: assms dayCounts_def strictEqZero_def orZero_def)
  then have "streakLoop b ''2024-06-14'' 0 = streakLoop b ''2024-06-13'' (0 + 1)"
    by (simp add: streakLoop_counts sample_day_before_yesterday)
  also have "\<dots> = Some 1"
    by (simp add: streakLoop_stops assms dayCounts_def)
  finally show ?thesis by (simp add: computeStreak_def assms sample_yesterday)
qed

lemma jsDate_dateString:
  "jsDate n = dateString (yearFromDay n) (monthFromDay n + 1) (dateFromDay n)"
  by (simp add: jsDate_def dateString_def)

lemma daysInMonth_range: "28 \<le> daysInMonth y m \<and> daysInMonth y m \<le> 31"
  by (simp add: daysInMonth_def)

lemma monthStart_next:
  assumes "2 \<le> m" "m \<le> 12"
  shows "monthStart (leapYear y) (m - 1) = monthStart (leapYear y) (m - 2) + daysInMonth y (m - 1)"
proof -
  consider "m = 2" | "m = 3" | "m = 4" | "m = 5" | "m = 6" | "m = 7" | "m = 8"
    | "m = 9" | "m = 10" | "m = 11" | "m = 12" using assms by atomize_elim presburger
  then show ?thesis
    by cases (simp_all add: monthStart_def daysInMonth_def Let_def)
qed

lemma prevDay_step:
  assumes v: "validDate y m d" and p: "prevDay (y, m, d) = (y', m', d')"
  shows "validDate y' m' d' \<and> makeDay y' (m' - 1) d' = makeDay y (m - 1) d - 1"
proof -
  have m: "1 \<le> m" "m \<le> 12" and d: "1 \<le> d" "d \<le> daysInMonth y m"
    using v by (simp_all add: validDate_def)
  have dm: "(m - 1) div 12 = 0" "(m - 1) mod 12 = m - 1" using m by simp_all
  consider (day) "1 < d" | (month) "d = 1" "1 < m" | (year) "d = 1" "m = 1"
    using m d by atomize_elim presburger
  then show ?thesis
  proof cases
    case day
    then have "y' = y" "m' = m" "d' = d - 1" using p by (auto simp add: prevDay_def)
    then show ?thesis using m d day by (simp add: validDate_def makeDay_def Let_def)
  next
    case month
    then have e: "y' = y" "m' = m - 1" "d' = daysInMonth y (m - 1)"
      using p by (auto simp add: prevDay_def)
    have dm2: "(m - 2) div 12 = 0" "(m - 2) mod 12 = m - 2" using m month by simp_all
    have "validDate y' m' d'"
      using m month daysInMonth_range [of y "m - 1"] by (simp add: e validDate_def)
    moreover have "makeDay y' (m' - 1) d' = makeDay y (m - 1) d - 1"
      using monthStart_next [of m y] m month
      by (simp add: e makeDay_def Let_def dm dm2)
    ultimately show ?thesis by simp
  next
    case year
    then have e: "y' = y - 1" "m' = 12" "d' = 31" using p by (auto simp add: prevDay_def)
    have "validDate y' m' d'" by (simp add: e validDate_def daysInMonth_def)
    moreover have "makeDay y' (m' - 1) d' = makeDay y (m - 1) d - 1"
      using dayFromYear_Suc [of "y - 1"] year
      by (simp add: e makeDay_def Let_def monthStart_def daysInYear_def)
    ultimately show ?thesis by simp
  qed
qed

lemma prevDay_iter:
  assumes "validDate y m d"
  shows "case (prevDay ^^ i) (y, m, d) of (y', m', d') \<Rightarrow>
     validDate y' m' d' \<and> makeDay y' (m' - 1) d' = makeDay y (m - 1) d - int i"
proof (induction i)
  case 0
  show ?case using assms by simp
next
  case (Suc i)
  obtain y1 m1 d1 where t: "(prevDay ^^ i) (y, m, d) = (y1, m1, d1)"
    by (cases "(prevDay ^^ i) (y, m, d)") auto
  obtain y2 m2 d2 where u: "prevDay (y1, m1, d1) = (y2, m2, d2)"
    by (cases "prevDay (y1, m1, d1)") auto
  from Suc t have v: "validDate y1 m1 d1" "makeDay y1 (m1 - 1) d1 = makeDay y (m - 1) d - int i"
    by simp_all
  from prevDay_step [OF v(1) u] v(2) show ?case by (simp add: t u)
qed

lemma jsDate_prev:
  assumes "validDate y m d"
  shows "jsDate (makeDay y (m - 1) d - int i) =
     (case (prevDay ^^ i) (y, m, d) of (y', m', d') \<Rightarrow> dateString y' m' d')"
proof -
  obtain y1 m1 d1 where t: "(prevDay ^^ i) (y, m, d) = (y1, m1, d1)"
    by (cases "(prevDay ^^ i) (y, m, d)") auto
  from prevDay_iter [OF assms, of i] t
  have v: "validDate y1 m1 d1" "makeDay y1 (m1 - 1) d1 = makeDay y (m - 1) d - int i"
    by simp_all
  have "jsDate (makeDay y1 (m1 - 1) d1) = dateString y1 m1 d1"
    by (simp add: jsDate_dateString fields_makeDay [OF v(1)])
  then show ?thesis by (simp add: t v(2))
qed

lemma window_set:
  "set (windowDates today w) = (\<lambda>i. addDays today (- int i)) ` {..<w}"
  by (auto simp: windowDates_def)

lemma window_inj_on:
  assumes "anchorDate today y m d" "w \<le> 1000"
  shows "inj_on (\<lambda>i. addDays today (- int i)) {..<w}"
  using assms(2) by (intro inj_onI window_inj [OF assms(1)]) auto

lemma window_sum:
  fixes g :: "string \<Rightarrow> 'a::comm_monoid_add"
  assumes "anchorDate today y m d" "w \<le> 1000"
  shows "(\<Sum>i<w. g (addDays today (- int i))) = (\<Sum>k\<in>set (windowDates today w). g k)"
  unfolding window_set
  by (simp add: sum.reindex [OF window_inj_on [OF assms]])

lemma window_card:
  assumes "anchorDate today y m d" "w \<le> 1000"
  shows "(\<Sum>i<w. if P (addDays today (- int i)) then 1 else (0::nat)) =
     card {k \<in> set (windowDates today w). P k}"
proof -
  have "(\<Sum>i<w. if P (addDays today (- int i)) then 1 else (0::nat)) =
      (\<Sum>k\<in>set (windowDates today w). if P k then 1 else 0)"
    by (rule window_sum [OF assms])
  also have "\<dots> = card {k \<in> set (windowDates today w). P k}"
    by (simp add: sum.If_cases Int_def)
  finally show ?thesis .
qed

lemma rollover_samples:
  "addDays ''2024-03-01'' (- 1) = ''2024-02-29''" "addDays ''2023-03-01'' (- 1) = ''2023-02-28''"
  "addDays ''2024-01-01'' (- 1) = ''2023-12-31''" "addDays ''2100-03-01'' (- 1) = ''2100-02-28''"
proof -
  have a: "anchorDate ''2024-03-01'' 2024 3 1" "anchorDate ''2023-03-01'' 2023 3 1"
    "anchorDate ''2024-01-01'' 2024 1 1" "anchorDate ''2100-03-01'' 2100 3 1"
    by (simp_all add: anchorDate_def isoDate_def validDate_def daysInMonth_def date_eval)
  have m: "makeDay 2024 2 1 = 19783" "makeDay 2023 2 1 = 19417" "makeDay 2024 0 1 = 19723"
    "makeDay 2100 2 1 = 47541"
    by (simp_all add: date_eval)
  have j: "jsDate 19782 = ''2024-02-29''" "jsDate 19416 = ''2023-02-28''"
    "jsDate 19722 = ''2023-12-31''" "jsDate 47540 = ''2100-02-28''"
    by (simp_all add: date_eval)
  show "addDays ''2024-03-01'' (- 1) = ''2024-02-29''"
    using addDays_anchor [OF a(1), of "- 1"] by (simp add: m j)
  show "addDays ''2023-03-01'' (- 1) = ''2023-02-28''"
    using addDays_anchor [OF a(2), of "- 1"] by (simp add: m j)
  show "addDays ''2024-01-01'' (- 1) = ''2023-12-31''"
    using addDays_anchor [OF a(3), of "- 1"] by (simp add: m j)
  show "addDays ''2100-03-01'' (- 1) = ''2100-02-28''"
    using addDays_anchor [OF a(4), of "- 1"] by (simp add: m j)
qed

lemma scorer_counts:
  "c_activeDays (scoreConsistency byDate today 30) =
     (\<Sum>i<30. if dayActive (byDate (addDays today (- int i))) then 1 else 0)"
  "ghostDays (scoreGhostDays byDate today 30) =
     (\<Sum>i<30. if dayGhost (byDate (addDays today (- int i))) then 1 else 0)"
  "g_activeDays (scoreGhostDays byDate today 30) =
     (\<Sum>i<30. if dayBusy (byDate (addDays today (- int i))) then 1 else 0)"
  "totalHours (scoreVolume byDate today 30) =
     (\<Sum>i<30. dayHours (byDate (addDays today (- int i))))"
  by (simp_all add: scoreConsistency_def scoreGhostDays_def scoreVolume_def consistency_fold
      ghost_fold volume_fold Let_def)

lemma window_nth:
  assumes "anchorDate today y m d" "i < 30"
  shows "windowDates today 30 ! i = jsDate (makeDay y (m - 1) d - int i)"
  using assms(2) window_day [OF assms(1), of i] by (simp add: windowDates_def)

lemma window_calendar:
  assumes "anchorDate today y m d"
  shows "windowDates today 30 =
     map (\<lambda>i. case (prevDay ^^ i) (y, m, d) of (y', m', d') \<Rightarrow> dateString y' m' d') [0..<30]"
proof -
  have v: "validDate y m d" using assms by (simp add: anchorDate_def)
  have "addDays today (- int i) =
      (case (prevDay ^^ i) (y, m, d) of (y', m', d') \<Rightarrow> dateString y' m' d')"
    if "i \<in> set [0..<30]" for i
    using that window_day [OF assms, of i] jsDate_prev [OF v, of i] by simp
  then show ?thesis unfolding windowDates_def by (intro map_cong) simp_all
qed

lemma anchor_back:
  assumes "anchorDate today y m d" "i \<le> 90000000"
  shows "addDays today (- int i) = jsDate (makeDay y (m - 1) d - int i)"
  using addDays_anchor [OF assms(1), of "- int i"] assms(2) by simp

lemma year_100: "dayFromYear 100 \<le> n \<Longrightarrow> 100 \<le> yearFromDay n"
  by (rule yearFromDay_ge)

lemma streak_prefix:
  assumes c: "\<forall>i<j. dayCounts (byDate (jsDate (n - int i)))"
    and lo: "dayFromYear 100 - 1 \<le> n - int j" and hi: "n \<le> 100000000"
  shows "streakLoop byDate (jsDate n) s = streakLoop byDate (jsDate (n - int j)) (s + j)"
  using c lo hi
proof (induction j arbitrary: n s)
  case 0
  show ?case by simp
next
  case (Suc j)
  have n: "dayFromYear 100 \<le> n" using Suc.prems(2) by simp
  then have y: "100 \<le> yearFromDay n" by (rule year_100)
  have b: "\<bar>n\<bar> \<le> 100000000" "\<bar>n + (- 1)\<bar> \<le> 100000000"
    using n Suc.prems(3) by (simp_all add: dayFromYear_values)
  have "dayCounts (byDate (jsDate n))" using Suc.prems(1) [rule_format, of 0] by simp
  then have "streakLoop byDate (jsDate n) s = streakLoop byDate (addDays (jsDate n) (- 1)) (s + 1)"
    by (rule streakLoop_counts)
  also have "addDays (jsDate n) (- 1) = jsDate (n - 1)"
    using addDays_jsDate [OF y b] by simp
  also have "streakLoop byDate (jsDate (n - 1)) (s + 1) =
      streakLoop byDate (jsDate (n - 1 - int j)) (s + 1 + j)"
  proof (rule Suc.IH)
    show "\<forall>i<j. dayCounts (byDate (jsDate (n - 1 - int i)))"
    proof (intro allI impI)
      fix i assume "i < j"
      then have "Suc i < Suc j" by simp
      from Suc.prems(1) [rule_format, OF this]
      have "dayCounts (byDate (jsDate (n - int (Suc i))))" .
      moreover have "n - int (Suc i) = n - 1 - int i" by simp
      ultimately show "dayCounts (byDate (jsDate (n - 1 - int i)))" by (simp only:)
    qed
    show "dayFromYear 100 - 1 \<le> n - 1 - int j" using Suc.prems(2) by simp
    show "n - 1 \<le> 100000000" using Suc.prems(3) by simp
  qed
  finally show ?case by (simp add: algebra_simps)
qed

lemma streak_run:
  assumes c: "\<forall>i<k. dayCounts (byDate (jsDate (n - int i)))"
    and e: "\<not> dayCounts (byDate (jsDate (n - int k)))"
    and lo: "dayFromYear 100 - 1 \<le> n - int k" and hi: "n \<le> 100000000"
  shows "streakLoop byDate (jsDate n) s = Some (s + k)"
  using streak_prefix [OF c lo hi, of s]
    streakLoop_stops [of byDate "jsDate (n - int k)" "s + k"] e by simp

lemma dayActive_counts: "dayActive v \<Longrightarrow> dayCounts v"
  by (cases v) (auto simp: dayActive_def dayHours_def dayCounts_def strictEqZero_def split: if_splits)


lemma map_of_const:
  "map_of (map (\<lambda>i. (f i, c)) xs) k = (if k \<in> f ` set xs then Some c else None)"
  by (induction xs) auto

lemma streakLog_at:
  assumes "i \<le> 1000"
  shows "streakLog (addDays ''2024-06-15'' (- int i)) =
     (if 1 \<le> i \<and> i \<le> 36 then Some (Legacy (JNum 1)) else None)"
proof -
  have "addDays ''2024-06-15'' (- int i) \<in> (\<lambda>i. addDays ''2024-06-15'' (- int i)) ` set [1..<37]
      \<longleftrightarrow> 1 \<le> i \<and> i \<le> 36"
  proof
    assume "addDays ''2024-06-15'' (- int i) \<in> (\<lambda>i. addDays ''2024-06-15'' (- int i)) ` set [1..<37]"
    then obtain j where j: "1 \<le> j" "j < 37"
      "addDays ''2024-06-15'' (- int i) = addDays ''2024-06-15'' (- int j)" by auto
    from window_inj [OF sample_anchor assms _ j(3)] j(2) have "i = j" by simp
    with j show "1 \<le> i \<and> i \<le> 36" by simp
  qed auto
  then show ?thesis unfolding streakLog_def map_of_const by simp
qed










lemma dayValue_cong:
  assumes "\<forall>d\<in>set (windowDates today w). byDate d = byDate' d" "i \<in> set [0..<w]"
  shows "dayValue byDate today i = dayValue byDate' today i"
proof -
  have "addDays today (- int i) \<in> set (windowDates today w)"
    using assms(2) by (auto simp: windowDates_def)
  then show ?thesis using assms(1) by (simp add: dayValue_def lookup_def)
qed

lemma outside_window:
  assumes a: "anchorDate today y m d" and k: "0 \<le> yearFromDay K"
    and o: "makeDay y (m - 1) d < K \<or> K < makeDay y (m - 1) d - 29"
  shows "jsDate K \<notin> set (windowDates today 30)"
proof
  assume "jsDate K \<in> set (windowDates today 30)"
  then obtain i where i: "i < 30" "jsDate K = addDays today (- int i)"
    by (auto simp: windowDates_def)
  then have "jsDate K = jsDate (makeDay y (m - 1) d - int i)"
    using window_day [OF a, of i] by simp
  then have "K = makeDay y (m - 1) d - int i"
    using k window_year [OF a, of i] i(1) by (intro jsDate_inj) simp_all
  with o i(1) show False by simp
qed

lemma new_year_anchor: "anchorDate ''2024-01-10'' 2024 1 10"
  by (simp add: anchorDate_def isoDate_def validDate_def daysInMonth_def date_eval)

lemma streakLog_dom: "dom streakLog = (\<lambda>i. addDays ''2024-06-15'' (- int i)) ` {1..<37}"
  by (auto simp: streakLog_def map_of_const split: if_splits)


section \<open>Facts about doubles and the scorers on the parsed log\<close>

lemma roundEven_int [simp]: "roundEven (of_int n) = n"
  by (simp add: roundEven_def)

lemma roundEven_floor: "\<lfloor>x\<rfloor> \<le> roundEven x" "roundEven x \<le> \<lfloor>x\<rfloor> + 1"
  by (simp_all add: roundEven_def Let_def)

lemma roundEven_le: "x \<le> of_int N \<Longrightarrow> roundEven x \<le> N"
proof (cases "x = of_int N")
  case False
  assume "x \<le> of_int N"
  with False have "x < of_int N" by simp
  then have "\<lfloor>x\<rfloor> < N" by (simp add: floor_less_iff)
  with roundEven_floor(2) [of x] show ?thesis by simp
qed simp

lemma roundEven_ge: "of_int N \<le> x \<Longrightarrow> N \<le> roundEven x"
proof -
  assume "of_int N \<le> x"
  then have "N \<le> \<lfloor>x\<rfloor>" by (simp add: le_floor_iff)
  with roundEven_floor(1) [of x] show ?thesis by simp
qed

lemma pow2_pos [simp]: "0 < (2::real) powi e"
  by (simp add: zero_less_power_int)

lemma pow2_mono: "m \<le> n \<Longrightarrow> (2::real) powi m \<le> 2 powi n"
  by (rule power_int_increasing) simp_all

lemma pow2_Suc: "(2::real) powi (e + 1) = 2 * 2 powi e"
  by (simp add: power_int_add_1')

lemma pow2_split: "(2::real) powi (m - n) = 2 powi m / 2 powi n"
  by (simp add: power_int_diff)

lemma pow2_nat: "0 \<le> n \<Longrightarrow> (2::real) powi n = of_int (2 ^ nat n)"
  using power_int_of_nat [of "2::real" "nat n"] by simp

lemma expUp_spec:
  assumes "e \<le> 1023" "2 powi e \<le> a"
  shows "e \<le> expUp a e \<and> expUp a e \<le> 1023 \<and> 2 powi (expUp a e) \<le> a \<and>
    (expUp a e < 1023 \<longrightarrow> a < 2 powi (expUp a e + 1))"
  using assms
proof (induction a e rule: expUp.induct)
  case (1 a e)
  show ?case
  proof (cases "e < 1023 \<and> 2 powi (e + 1) \<le> a")
    case True
    then have "expUp a e = expUp a (e + 1)" by (subst expUp.simps) simp
    moreover from 1(1) [OF True] True
    have "e + 1 \<le> expUp a (e + 1) \<and> expUp a (e + 1) \<le> 1023 \<and> 2 powi (expUp a (e + 1)) \<le> a \<and>
      (expUp a (e + 1) < 1023 \<longrightarrow> a < 2 powi (expUp a (e + 1) + 1))" by simp
    ultimately show ?thesis by simp
  next
    case False
    then have "expUp a e = e" by (subst expUp.simps) auto
    with False 1(2,3) show ?thesis by auto
  qed
qed

lemma expDown_spec:
  assumes "- 1022 \<le> e" "a < 2 powi (e + 1)"
  shows "- 1022 \<le> expDown a e \<and> expDown a e \<le> e \<and> a < 2 powi (expDown a e + 1) \<and>
    (- 1022 < expDown a e \<longrightarrow> 2 powi (expDown a e) \<le> a)"
  using assms
proof (induction a e rule: expDown.induct)
  case (1 a e)
  show ?case
  proof (cases "- 1022 < e \<and> a < 2 powi e")
    case True
    then have "expDown a e = expDown a (e - 1)" by (subst expDown.simps) simp
    moreover from 1(1) [OF True] True
    have "- 1022 \<le> expDown a (e - 1) \<and> expDown a (e - 1) \<le> e - 1 \<and>
      a < 2 powi (expDown a (e - 1) + 1) \<and>
      (- 1022 < expDown a (e - 1) \<longrightarrow> 2 powi (expDown a (e - 1)) \<le> a)" by simp
    ultimately show ?thesis by simp
  next
    case False
    then have "expDown a e = e" by (subst expDown.simps) auto
    with False 1(2,3) show ?thesis by auto
  qed
qed

lemma expo_spec:
  "- 1022 \<le> expo a" "expo a \<le> 1023"
  "expo a < 1023 \<Longrightarrow> a < 2 powi (expo a + 1)"
  "- 1022 < expo a \<Longrightarrow> 2 powi (expo a) \<le> a"
proof -
  have "- 1022 \<le> expo a \<and> expo a \<le> 1023 \<and> (expo a < 1023 \<longrightarrow> a < 2 powi (expo a + 1)) \<and>
    (- 1022 < expo a \<longrightarrow> 2 powi (expo a) \<le> a)"
  proof (cases "1 \<le> a")
    case True
    with expUp_spec [of 0 a] show ?thesis by (simp add: expo_def)
  next
    case False
    with expDown_spec [of 0 a] show ?thesis by (simp add: expo_def)
  qed
  then show "- 1022 \<le> expo a" "expo a \<le> 1023"
    "expo a < 1023 \<Longrightarrow> a < 2 powi (expo a + 1)"
    "- 1022 < expo a \<Longrightarrow> 2 powi (expo a) \<le> a" by simp_all
qed

lemma expo_unique:
  assumes "- 1022 \<le> e" "e \<le> 1023" "- 1022 < e \<longrightarrow> 2 powi e \<le> a"
    "e < 1023 \<longrightarrow> a < 2 powi (e + 1)"
  shows "expo a = e"
proof (rule ccontr)
  assume "expo a \<noteq> e"
  then consider "expo a < e" | "e < expo a" by linarith
  then show False
  proof cases
    case 1
    then have "a < 2 powi (expo a + 1)" using assms(2) by (intro expo_spec(3)) simp
    also have "\<dots> \<le> 2 powi e" using 1 by (intro pow2_mono) simp
    also have "\<dots> \<le> a" using assms(3) 1 expo_spec(1) [of a] by simp
    finally show False by simp
  next
    case 2
    then have "a < 2 powi (e + 1)" using assms(4) expo_spec(2) [of a] by simp
    also have "\<dots> \<le> 2 powi (expo a)" using 2 by (intro pow2_mono) simp
    also have "\<dots> \<le> a" using 2 assms(1) by (intro expo_spec(4)) simp
    finally show False by simp
  qed
qed

lemma expo_mono:
  assumes "a \<le> b"
  shows "expo a \<le> expo b"
proof (rule ccontr)
  assume "\<not> expo a \<le> expo b"
  then have l: "expo b < expo a" by simp
  then have "b < 2 powi (expo b + 1)" using expo_spec(2) [of a] by (intro expo_spec(3)) simp
  also have "\<dots> \<le> 2 powi (expo a)" using l by (intro pow2_mono) simp
  also have "\<dots> \<le> a" using l expo_spec(1) [of b] by (intro expo_spec(4)) simp
  finally show False using assms by simp
qed

lemma expo_pow2: "- 1022 \<le> k \<Longrightarrow> k \<le> 1023 \<Longrightarrow> expo (2 powi k) = k"
  by (rule expo_unique) (simp_all add: pow2_Suc)

text \<open>A number on the grid of its own binade is not changed.\<close>

lemma rndPos_exact:
  assumes "a = of_int N * 2 powi (expo a - 52)" "a < 2 powi 1024"
  shows "rndPos a = Fin a"
proof -
  have "a / 2 powi (expo a - 52) = of_int N"
    using assms(1) by (simp add: field_simps)
  then show ?thesis using assms by (simp add: rndPos_def Let_def)
qed

lemma rndPos_nonneg:
  assumes "0 \<le> a"
  shows "rndPos a = PInf \<or> (\<exists>v. rndPos a = Fin v \<and> 0 \<le> v)"
proof -
  have "0 \<le> a / 2 powi (expo a - 52)" using assms by simp
  then have "0 \<le> roundEven (a / 2 powi (expo a - 52))"
    using roundEven_ge [of 0] by simp
  then show ?thesis by (simp add: rndPos_def Let_def)
qed

lemma grid_step:
  assumes "e \<le> ec"
  shows "(2::real) powi (ec - 52) / 2 powi (e - 52) = of_int (2 ^ nat (ec - e))"
proof -
  have "(2::real) powi (ec - 52) / 2 powi (e - 52) = 2 powi ((ec - 52) - (e - 52))"
    by (simp add: pow2_split)
  also have "\<dots> = of_int (2 ^ nat (ec - e))" using assms pow2_nat [of "ec - e"] by simp
  finally show ?thesis .
qed

lemma rndPos_le:
  assumes a: "0 \<le> a" "a \<le> c" and c: "c = of_int N * 2 powi (expo c - 52)" "c < 2 powi 1024"
  shows "\<exists>v. rndPos a = Fin v \<and> 0 \<le> v \<and> v \<le> c"
proof -
  define q where "q = (2::real) powi (expo a - 52)"
  define M where "M = roundEven (a / q)"
  have q: "0 < q" by (simp add: q_def)
  have e: "expo a \<le> expo c" using a(2) by (rule expo_mono)
  have "c / q = of_int N * (2 powi (expo c - 52) / q)" using c(1) by simp
  also have "\<dots> = of_int (N * 2 ^ nat (expo c - expo a))"
    unfolding q_def grid_step [OF e] by simp
  finally have cq: "c / q = of_int (N * 2 ^ nat (expo c - expo a))" .
  have "a / q \<le> c / q" using a(2) q by (simp add: divide_right_mono)
  then have "M \<le> N * 2 ^ nat (expo c - expo a)"
    unfolding M_def cq by (rule roundEven_le)
  then have "of_int M \<le> (of_int (N * 2 ^ nat (expo c - expo a)) :: real)" by (simp only: of_int_le_iff)
  then have "of_int M \<le> c / q" by (simp only: cq)
  then have le: "of_int M * q \<le> c" using q by (simp add: field_simps)
  have "0 \<le> a / q" using a(1) q by simp
  then have "0 \<le> M" unfolding M_def using roundEven_ge [of 0] by simp
  then have ge: "0 \<le> of_int M * q" using q by simp
  have "rndPos a = Fin (of_int M * q)"
    using le c(2) by (simp add: rndPos_def Let_def q_def [symmetric] M_def [symmetric])
  with le ge show ?thesis by blast
qed

lemma rndPos_pow2:
  assumes "0 \<le> a" "a \<le> 2 powi k" "- 1022 \<le> k" "k \<le> 1023"
  shows "\<exists>v. rndPos a = Fin v \<and> 0 \<le> v \<and> v \<le> 2 powi k"
proof (rule rndPos_le [OF assms(1,2), of "2 ^ 52"])
  have e: "expo (2 powi k) = k" by (rule expo_pow2 [OF assms(3,4)])
  have "(2::real) powi k = 2 powi 52 * 2 powi (k - 52)" by (simp add: pow2_split)
  then show "(2::real) powi k = of_int (2 ^ 52) * 2 powi (expo (2 powi k) - 52)"
    unfolding e by simp
  show "(2::real) powi k < 2 powi 1024"
    using assms(4) power_int_strict_increasing [of k 1024 "2::real"] by simp
qed

lemma expo_int:
  assumes "0 \<le> n" "n < 2 ^ 53"
  shows "expo (of_int n) \<le> 52"
proof (rule ccontr)
  assume "\<not> expo (of_int n) \<le> 52"
  then have l: "53 \<le> expo (of_int n)" by simp
  have "(2::real) powi 53 \<le> 2 powi (expo (of_int n))" using l by (rule pow2_mono)
  also have "\<dots> \<le> of_int n" using l by (intro expo_spec(4)) simp
  finally have "(of_int (2 ^ 53) :: real) \<le> of_int n" by simp
  then have "(2 ^ 53 :: int) \<le> n" by (simp only: of_int_le_iff)
  with assms(2) show False by simp
qed

lemma rndPos_int:
  assumes "0 \<le> n" "n < 2 ^ 53"
  shows "rndPos (of_int n) = Fin (of_int n)"
proof (rule rndPos_exact)
  define e where "e = expo (of_int n)"
  have e: "e \<le> 52" unfolding e_def by (rule expo_int [OF assms])
  have "(2::real) powi (e - 52) * of_int (2 ^ nat (52 - e)) = 2 powi (e - 52) * 2 powi (52 - e)"
    using e pow2_nat [of "52 - e"] by simp
  also have "\<dots> = 2 powi ((e - 52) + (52 - e))" by (subst power_int_add) simp_all
  finally have "(2::real) powi (e - 52) * of_int (2 ^ nat (52 - e)) = 1" by simp
  then have "(of_int n :: real) = of_int n * (of_int (2 ^ nat (52 - e)) * 2 powi (e - 52))"
    by (simp add: mult.commute)
  then show "(of_int n :: real) = of_int (n * 2 ^ nat (52 - e)) * 2 powi (expo (of_int n) - 52)"
    unfolding e_def [symmetric] by (simp add: mult.assoc)
  have "(of_int n :: real) < of_int (2 ^ 53)" using assms(2) by (simp only: of_int_less_iff)
  also have "\<dots> < 2 powi 1024" by simp
  finally show "of_int n < (2::real) powi 1024" .
qed

lemma rnd_int:
  assumes "0 \<le> n" "n < 2 ^ 53"
  shows "rnd (of_int n) = Fin (of_int n)"
  using rndPos_int [OF assms] assms(1) by (simp add: rnd_def)

lemma rnd_nonneg:
  assumes "0 \<le> a"
  shows "rnd a = PInf \<or> (\<exists>v. rnd a = Fin v \<and> 0 \<le> v)"
  using rndPos_nonneg [OF assms] assms by (simp add: rnd_def)

lemma rnd_le:
  assumes "0 \<le> a" "a \<le> c" "c = of_int N * 2 powi (expo c - 52)" "c < 2 powi 1024"
  shows "\<exists>v. rnd a = Fin v \<and> 0 \<le> v \<and> v \<le> c"
  using rndPos_le [OF assms] assms(1,2) by (auto simp: rnd_def)

lemma rnd_pow2:
  assumes "0 \<le> a" "a \<le> 2 powi k" "- 1022 \<le> k" "k \<le> 1023"
  shows "\<exists>v. rnd a = Fin v \<and> 0 \<le> v \<and> v \<le> 2 powi k"
  using rndPos_pow2 [OF assms] assms(1) by (auto simp: rnd_def)

text \<open>Rounding a value that is the result of a rounding changes nothing.\<close>

lemma rndPos_idem:
  assumes a: "0 \<le> a" and r: "rndPos a = Fin v"
  shows "rndPos v = Fin v"
proof -
  define e where "e = expo a"
  define q where "q = (2::real) powi (e - 52)"
  define M where "M = roundEven (a / q)"
  have q: "0 < q" by (simp add: q_def)
  have v: "v = of_int M * q" and top: "v < 2 powi 1024"
    using r by (simp_all add: rndPos_def Let_def e_def [symmetric] q_def [symmetric]
        M_def [symmetric] split: if_splits)
  have eb: "- 1022 \<le> e" "e \<le> 1023" using expo_spec(1,2) [of a] by (simp_all add: e_def)
  have q53: "q * 2 ^ 53 = 2 powi (e + 1)"
  proof -
    have "(2::real) powi (e - 52) * 2 powi 53 = 2 powi ((e - 52) + 53)"
      by (subst power_int_add) simp_all
    also have "(e - 52) + 53 = e + 1" by simp
    finally show ?thesis by (simp add: q_def)
  qed
  have q52: "q * 2 ^ 52 = 2 powi e"
  proof -
    have "(2::real) powi (e - 52) * 2 powi 52 = 2 powi ((e - 52) + 52)"
      by (subst power_int_add) simp_all
    also have "(e - 52) + 52 = e" by simp
    finally show ?thesis by (simp add: q_def)
  qed
  have M0: "0 \<le> M"
  proof -
    have "0 \<le> a / q" using a q by simp
    then show ?thesis unfolding M_def using roundEven_ge [of 0] by simp
  qed
  have Mhi: "M \<le> 2 ^ 53"
  proof (cases "e < 1023")
    case True
    then have "a < 2 powi (e + 1)" unfolding e_def by (rule expo_spec(3))
    then have "a < q * 2 ^ 53" by (simp only: q53)
    then have "a / q \<le> of_int (2 ^ 53)" using q by (simp add: field_simps)
    then show ?thesis unfolding M_def by (rule roundEven_le)
  next
    case False
    then have e: "e = 1023" using eb by simp
    from top e have "v < 2 powi (e + 1)" by simp
    then have "of_int M * q < q * 2 ^ 53" by (simp only: q53 v)
    then have "(of_int M :: real) < of_int (2 ^ 53)" using q by simp
    then have "M < 2 ^ 53" by (simp only: of_int_less_iff)
    then show ?thesis by simp
  qed
  have Mlo: "2 ^ 52 \<le> M" if "- 1022 < e"
  proof -
    have "2 powi e \<le> a" using that unfolding e_def by (rule expo_spec(4))
    then have "q * 2 ^ 52 \<le> a" by (simp only: q52)
    then have "of_int (2 ^ 52) \<le> a / q" using q by (simp add: field_simps)
    then show ?thesis unfolding M_def by (rule roundEven_ge)
  qed
  show ?thesis
  proof (cases "M = 2 ^ 53")
    case True
    then have v2: "v = 2 powi (e + 1)" using v q53 by (simp add: mult.commute)
    have e1: "e + 1 \<le> 1023"
    proof (rule ccontr)
      assume "\<not> e + 1 \<le> 1023"
      then have "e = 1023" using eb by simp
      with v2 top show False by simp
    qed
    have ex: "expo v = e + 1" unfolding v2 using eb e1 by (intro expo_pow2) simp_all
    have "of_int (2 ^ 52) * 2 powi (expo v - 52) = (2::real) powi 52 * 2 powi (e + 1 - 52)"
      by (simp add: ex)
    also have "\<dots> = 2 powi (52 + (e + 1 - 52))" by (subst power_int_add) simp_all
    also have "52 + (e + 1 - 52) = e + 1" by simp
    finally have f: "(2::real) powi (e + 1) = of_int (2 ^ 52) * 2 powi (expo v - 52)"
      by (rule sym)
    show ?thesis
    proof (rule rndPos_exact [of _ "2 ^ 52"])
      show "v = of_int (2 ^ 52) * 2 powi (expo v - 52)" by (rule trans [OF v2 f])
      show "v < 2 powi 1024" by (rule top)
    qed
  next
    case False
    with Mhi have Ml: "M < 2 ^ 53" by simp
    have ex: "expo v = e"
    proof (rule expo_unique [OF eb])
      show "- 1022 < e \<longrightarrow> 2 powi e \<le> v"
      proof
        assume "- 1022 < e"
        from Mlo [OF this] have "(of_int (2 ^ 52) :: real) \<le> of_int M" by (simp only: of_int_le_iff)
        then have "q * 2 ^ 52 \<le> of_int M * q" using q by (simp add: mult.commute)
        then show "2 powi e \<le> v" by (simp only: q52 v)
      qed
      show "e < 1023 \<longrightarrow> v < 2 powi (e + 1)"
      proof
        from Ml have "(of_int M :: real) < of_int (2 ^ 53)" by (simp only: of_int_less_iff)
        then have "of_int M * q < q * 2 ^ 53" using q by (simp add: mult.commute)
        then show "v < 2 powi (e + 1)" by (simp only: q53 v)
      qed
    qed
    show ?thesis
    proof (rule rndPos_exact [of _ M])
      show "v = of_int M * 2 powi (expo v - 52)" unfolding ex using v by (simp add: q_def)
      show "v < 2 powi 1024" by (rule top)
    qed
  qed
qed

lemma rndPos_zero: "0 \<le> a \<Longrightarrow> rndPos a = Fin v \<Longrightarrow> 0 \<le> v"
  using rndPos_nonneg [of a] by auto

lemma rnd_idem:
  assumes "rnd x = Fin v"
  shows "rnd v = Fin v"
proof -
  consider "x = 0" | "x < 0" | "0 < x" by linarith
  then show ?thesis
  proof cases
    case 1
    with assms show ?thesis by (simp add: rnd_def)
  next
    case 2
    with assms have "neg64 (rndPos (- x)) = Fin v" by (simp add: rnd_def)
    then have p: "rndPos (- x) = Fin (- v)" by (cases "rndPos (- x)") simp_all
    from 2 have n: "0 \<le> - x" by simp
    from rndPos_zero [OF n p] have v: "v \<le> 0" by simp
    from rndPos_idem [OF n p] show ?thesis using v by (simp add: rnd_def)
  next
    case 3
    with assms have p: "rndPos x = Fin v" by (simp add: rnd_def)
    from 3 have n: "0 \<le> x" by simp
    from rndPos_zero [OF n p] have v: "0 \<le> v" .
    from rndPos_idem [OF n p] show ?thesis using v by (simp add: rnd_def)
  qed
qed

lemmas f64_eval = rnd_def rndPos_def expo_def expUp.simps expDown.simps roundEven_def Let_def
  power_int_minus

lemma isF64_rnd: "isF64 (rnd x)"
  by (cases "rnd x") (simp_all add: rnd_idem)

lemma isF64_add: "isF64 (add64 x y)"
  by (cases x; cases y) (simp_all add: isF64_rnd del: isF64.simps(1))

lemma add64_zero: "isF64 a \<Longrightarrow> add64 a (Fin 0) = a"
  by (cases a) simp_all

lemma isF64_zero: "isF64 (Fin 0)"
  by (simp add: rnd_def)

lemma isF64_foldl: "isF64 a \<Longrightarrow> isF64 (foldl add64 a xs)"
  by (induction xs arbitrary: a) (simp_all add: isF64_add)

lemma foldl_zeros: "isF64 a \<Longrightarrow> \<forall>x\<in>set xs. x = Fin 0 \<Longrightarrow> foldl add64 a xs = a"
  by (induction xs arbitrary: a) (simp_all add: add64_zero)

lemma autonomy_cases:
  "min64 (Fin 25) (round64 (mul64 (div64 (Fin 71) (Fin 48)) (Fin 12.5))) = Fin 18"
  "min64 (Fin 25) (round64 (mul64 (div64 (Fin 29) (Fin 25)) (Fin 12.5))) = Fin 14"
  "min64 (Fin 25) (round64 (mul64 (div64 (Fin 1) (Fin 1)) (Fin 12.5))) = Fin 13"
  "min64 (Fin 25) (round64 (mul64 (div64 (Fin 1) (Fin 4)) (Fin 12.5))) = Fin 3"
  "min64 (Fin 25) (round64 (mul64 (div64 (Fin 9) (Fin 2)) (Fin 12.5))) = Fin 25"
  "min64 (Fin 25) (round64 (mul64 (Fin 2) (Fin 12.5))) = Fin 25"
  "min64 (Fin 25) (round64 (mul64 (Fin 0) (Fin 12.5))) = Fin 0"
  by (simp_all add: f64_eval)

lemma isF64_one: "isF64 (Fin 1)"
  using rnd_int [of 1] by simp

lemma isF64_toNumber_parse: "isF64 (toNumber64 (parseValue j))"
proof (cases j)
  case JNull
  then show ?thesis using isF64_zero by simp
next
  case (JBool b)
  then show ?thesis using isF64_zero isF64_one by (cases b) simp_all
next
  case (JNum x)
  then show ?thesis using isF64_rnd [of x] by simp
qed

lemma autonomy_fold64:
  assumes "isF64 a" "isF64 b"
  shows "fold (\<lambda>i. autonomyBody64 (dayValue64 byDate today i)) [0..<n] (a, b) =
     (foldl add64 a (map (\<lambda>i. dayMain64 (byDate (addDays today (- int i)))) [0..<n]),
      foldl add64 b (map (\<lambda>i. daySub64 (byDate (addDays today (- int i)))) [0..<n]))"
proof (induction n)
  case 0
  show ?case by simp
next
  case (Suc n)
  define A where "A = foldl add64 a (map (\<lambda>i. dayMain64 (byDate (addDays today (- int i)))) [0..<n])"
  define B where "B = foldl add64 b (map (\<lambda>i. daySub64 (byDate (addDays today (- int i)))) [0..<n])"
  have v: "isF64 A" "isF64 B"
    unfolding A_def B_def using assms by (induction n) (simp_all add: isF64_add)
  have "autonomyBody64 (dayValue64 byDate today n) (A, B) =
      (add64 A (dayMain64 (byDate (addDays today (- int n)))),
       add64 B (daySub64 (byDate (addDays today (- int n)))))"
    using v by (simp add: autonomyBody64_def dayValue64_def lookup64_def dayMain64_def
        daySub64_def add64_zero split: option.splits)
  then show ?case using Suc by (simp add: A_def B_def)
qed

lemma scoreAutonomy64_sums:
  "mainHours64 (scoreAutonomy64 byDate today 30) =
     sum64 (map (\<lambda>i. dayMain64 (byDate (addDays today (- int i)))) [0..<30])"
  "subHours64 (scoreAutonomy64 byDate today 30) =
     sum64 (map (\<lambda>i. daySub64 (byDate (addDays today (- int i)))) [0..<30])"
  by (simp_all add: scoreAutonomy64_def Let_def sum64_def
      autonomy_fold64 [OF isF64_zero isF64_zero])

lemma scoreAutonomy64_ratio:
  "ratio64 (scoreAutonomy64 byDate today 30) =
     (if positive (mainHours64 (scoreAutonomy64 byDate today 30))
      then div64 (subHours64 (scoreAutonomy64 byDate today 30))
             (mainHours64 (scoreAutonomy64 byDate today 30))
      else if positive (subHours64 (scoreAutonomy64 byDate today 30)) then Fin 2 else Fin 0)"
  by (simp add: scoreAutonomy64_def Let_def)

lemma scoreAutonomy64_points:
  "a_points64 (scoreAutonomy64 byDate today 30) =
     min64 (Fin 25) (round64 (mul64 (ratio64 (scoreAutonomy64 byDate today 30)) (Fin 12.5)))"
  by (simp add: scoreAutonomy64_def Let_def)

lemma sum64_prefix:
  assumes "k \<le> n" "\<forall>i. k \<le> i \<and> i < n \<longrightarrow> g i = Fin 0"
  shows "sum64 (map g [0..<n]) = sum64 (map g [0..<k])"
proof -
  have "[0..<n] = [0..<k] @ [k..<n]" using assms(1) by (metis le_Suc_ex upt_add_eq_append zero_le)
  then have "sum64 (map g [0..<n]) = foldl add64 (sum64 (map g [0..<k])) (map g [k..<n])"
    by (simp add: sum64_def)
  also have "\<dots> = sum64 (map g [0..<k])"
  proof (rule foldl_zeros)
    show "isF64 (sum64 (map g [0..<k]))"
      unfolding sum64_def by (intro isF64_foldl isF64_zero)
    show "\<forall>x\<in>set (map g [k..<n]). x = Fin 0" using assms(2) by simp
  qed
  finally show ?thesis .
qed

lemma parsed_single:
  assumes "anchorDate today y m d" "i < 30"
  shows "parseLog [today \<mapsto> r] (addDays today (- int i)) = (if i = 0 then Some (parseDay r) else None)"
  using single_day [OF assms, of r] by (simp add: parseLog_def)

section \<open>Properties of the scoring run\<close>

text \<open>
  Claim C4. The grader is a lookup of the total in six ordered ranges that do not overlap
  and include their lower bound: 90 to 100 is S (Cyborg), 75 to 89 is A (Power User),
  60 to 74 is B (Growing), 45 to 59 is C (Early Stage), 30 to 44 is D (Getting Started),
  0 to 29 is F (Dormant). At the boundaries: 90 is S, 89 is A, 75 is A, 74 is B.
\<close>

theorem grade_ranges:
  "(t \<in> {90..100} \<longrightarrow> grade_letter (grade (Some t)) = ''S'' \<and> label (grade (Some t)) = ''Cyborg'') \<and>
   (t \<in> {75..89} \<longrightarrow> grade_letter (grade (Some t)) = ''A'' \<and> label (grade (Some t)) = ''Power User'') \<and>
   (t \<in> {60..74} \<longrightarrow> grade_letter (grade (Some t)) = ''B'' \<and> label (grade (Some t)) = ''Growing'') \<and>
   (t \<in> {45..59} \<longrightarrow> grade_letter (grade (Some t)) = ''C'' \<and> label (grade (Some t)) = ''Early Stage'') \<and>
   (t \<in> {30..44} \<longrightarrow> grade_letter (grade (Some t)) = ''D'' \<and> label (grade (Some t)) = ''Getting Started'') \<and>
   (t \<in> {0..29} \<longrightarrow> grade_letter (grade (Some t)) = ''F'' \<and> label (grade (Some t)) = ''Dormant'')"
  by (simp add: grade_def jsGe_def)

theorem grade_ranges_witness:
  "grade_letter (grade (Some 90)) = ''S'' \<and> grade_letter (grade (Some 89)) = ''A'' \<and>
   grade_letter (grade (Some 75)) = ''A'' \<and> grade_letter (grade (Some 74)) = ''B'' \<and>
   label (grade (Some 59)) = ''Early Stage'' \<and> label (grade (Some 30)) = ''Getting Started'' \<and>
   label (grade (Some 0)) = ''Dormant'' \<and> label (grade (Some 100)) = ''Cyborg''"
  using grade_ranges [of 90] grade_ranges [of 89] grade_ranges [of 75] grade_ranges [of 74]
    grade_ranges [of 59] grade_ranges [of 30] grade_ranges [of 0] grade_ranges [of 100]
  by simp

text \<open>
  Claim C2. The Autonomy scorer sums the primary hours (main) and the secondary hours (sub)
  of the 30 days of the window, takes the ratio sub / main when main is positive, 2 when
  main is not positive and sub is, 0 otherwise, and gives min(25, round(ratio * 12.5))
  points, all in the arithmetic of doubles. For main = 48 and sub = 71 that is 18 points.
  Rounding is to the nearest integer, a tie going up (13 points for equal sums, where
  ratio * 12.5 is 12.5), and it is applied to the products of doubles (14 points for
  main = 25 and sub = 29, where the exact product would be 14.5).
\<close>

theorem scoreAutonomy_formula:
  "mainHours64 (scoreAutonomy64 byDate today 30) =
     sum64 (map (\<lambda>i. dayMain64 (byDate (addDays today (- int i)))) [0..<30]) \<and>
   subHours64 (scoreAutonomy64 byDate today 30) =
     sum64 (map (\<lambda>i. daySub64 (byDate (addDays today (- int i)))) [0..<30]) \<and>
   ratio64 (scoreAutonomy64 byDate today 30) =
     (if positive (mainHours64 (scoreAutonomy64 byDate today 30))
      then div64 (subHours64 (scoreAutonomy64 byDate today 30))
             (mainHours64 (scoreAutonomy64 byDate today 30))
      else if positive (subHours64 (scoreAutonomy64 byDate today 30)) then Fin 2 else Fin 0) \<and>
   a_points64 (scoreAutonomy64 byDate today 30) =
     min64 (Fin 25) (round64 (mul64 (ratio64 (scoreAutonomy64 byDate today 30)) (Fin 12.5))) \<and>
   (mainHours64 (scoreAutonomy64 byDate today 30) = Fin 48 \<and>
    subHours64 (scoreAutonomy64 byDate today 30) = Fin 71 \<longrightarrow>
      a_points64 (scoreAutonomy64 byDate today 30) = Fin 18) \<and>
   (mainHours64 (scoreAutonomy64 byDate today 30) = Fin 25 \<and>
    subHours64 (scoreAutonomy64 byDate today 30) = Fin 29 \<longrightarrow>
      a_points64 (scoreAutonomy64 byDate today 30) = Fin 14) \<and>
   (mainHours64 (scoreAutonomy64 byDate today 30) = Fin 1 \<and>
    subHours64 (scoreAutonomy64 byDate today 30) = Fin 1 \<longrightarrow>
      a_points64 (scoreAutonomy64 byDate today 30) = Fin 13) \<and>
   (mainHours64 (scoreAutonomy64 byDate today 30) = Fin 4 \<and>
    subHours64 (scoreAutonomy64 byDate today 30) = Fin 1 \<longrightarrow>
      a_points64 (scoreAutonomy64 byDate today 30) = Fin 3) \<and>
   (mainHours64 (scoreAutonomy64 byDate today 30) = Fin 2 \<and>
    subHours64 (scoreAutonomy64 byDate today 30) = Fin 9 \<longrightarrow>
      a_points64 (scoreAutonomy64 byDate today 30) = Fin 25) \<and>
   (mainHours64 (scoreAutonomy64 byDate today 30) = Fin 0 \<and>
    subHours64 (scoreAutonomy64 byDate today 30) = Fin 3 \<longrightarrow>
      a_points64 (scoreAutonomy64 byDate today 30) = Fin 25) \<and>
   (mainHours64 (scoreAutonomy64 byDate today 30) = Fin 0 \<and>
    subHours64 (scoreAutonomy64 byDate today 30) = Fin 0 \<longrightarrow>
      a_points64 (scoreAutonomy64 byDate today 30) = Fin 0)"
proof -
  define R where "R = scoreAutonomy64 byDate today 30"
  note r = scoreAutonomy64_ratio [of byDate today, folded R_def]
  note p = scoreAutonomy64_points [of byDate today, folded R_def]
  have "a_points64 R = Fin 18" if "mainHours64 R = Fin 48" "subHours64 R = Fin 71"
    unfolding p r that using autonomy_cases(1) by simp
  moreover have "a_points64 R = Fin 14" if "mainHours64 R = Fin 25" "subHours64 R = Fin 29"
    unfolding p r that using autonomy_cases(2) by simp
  moreover have "a_points64 R = Fin 13" if "mainHours64 R = Fin 1" "subHours64 R = Fin 1"
    unfolding p r that using autonomy_cases(3) by simp
  moreover have "a_points64 R = Fin 3" if "mainHours64 R = Fin 4" "subHours64 R = Fin 1"
    unfolding p r that using autonomy_cases(4) by simp
  moreover have "a_points64 R = Fin 25" if "mainHours64 R = Fin 2" "subHours64 R = Fin 9"
    unfolding p r that using autonomy_cases(5) by simp
  moreover have "a_points64 R = Fin 25" if "mainHours64 R = Fin 0" "subHours64 R = Fin 3"
    unfolding p r that using autonomy_cases(6) by simp
  moreover have "a_points64 R = Fin 0" if "mainHours64 R = Fin 0" "subHours64 R = Fin 0"
    unfolding p r that using autonomy_cases(7) by simp
  ultimately show ?thesis
    unfolding R_def [symmetric]
    using scoreAutonomy64_sums [of byDate today, folded R_def] r p by blast
qed

theorem scoreAutonomy_formula_witness:
  "mainHours64 (scoreAutonomy64 (parseLog oneDayLog) ''2024-06-15'' 30) = Fin 48 \<and>
   subHours64 (scoreAutonomy64 (parseLog oneDayLog) ''2024-06-15'' 30) = Fin 71 \<and>
   a_points64 (scoreAutonomy64 (parseLog oneDayLog) ''2024-06-15'' 30) = Fin 18 \<and>
   mainHours64 (scoreAutonomy64 (parseLog tieLog) ''2024-06-15'' 30) = Fin 25 \<and>
   subHours64 (scoreAutonomy64 (parseLog tieLog) ''2024-06-15'' 30) = Fin 29 \<and>
   a_points64 (scoreAutonomy64 (parseLog tieLog) ''2024-06-15'' 30) = Fin 14"
proof -
  have r: "rnd 48 = Fin 48" "rnd 71 = Fin 71" "rnd 25 = Fin 25" "rnd 29 = Fin 29"
    using rnd_int [of 48] rnd_int [of 71] rnd_int [of 25] rnd_int [of 29] by simp_all
  have s: "sum64 (map (\<lambda>i. g (parseLog [''2024-06-15'' \<mapsto> v] (addDays ''2024-06-15'' (- int i))))
      [0..<30]) = add64 (Fin 0) (g (Some (parseDay v)))"
    if "g None = Fin 0" for g v
  proof -
    have "sum64 (map (\<lambda>i. g (parseLog [''2024-06-15'' \<mapsto> v] (addDays ''2024-06-15'' (- int i))))
        [0..<30]) =
      sum64 (map (\<lambda>i. g (parseLog [''2024-06-15'' \<mapsto> v] (addDays ''2024-06-15'' (- int i))))
        [0..<1])"
      using that by (intro sum64_prefix) (simp_all add: parsed_single [OF sample_anchor])
    then show ?thesis
      using parsed_single [OF sample_anchor, of 0 v] by (simp add: sum64_def)
  qed
  have m: "mainHours64 (scoreAutonomy64 (parseLog oneDayLog) ''2024-06-15'' 30) = Fin 48"
    "subHours64 (scoreAutonomy64 (parseLog oneDayLog) ''2024-06-15'' 30) = Fin 71"
    unfolding scoreAutonomy64_sums oneDayLog_def
    by (subst s; simp add: dayMain64_def daySub64_def orZero64_def r)+
  have t: "mainHours64 (scoreAutonomy64 (parseLog tieLog) ''2024-06-15'' 30) = Fin 25"
    "subHours64 (scoreAutonomy64 (parseLog tieLog) ''2024-06-15'' 30) = Fin 29"
    unfolding scoreAutonomy64_sums tieLog_def
    by (subst s; simp add: dayMain64_def daySub64_def orZero64_def r)+
  show ?thesis
    using scoreAutonomy_formula [of "parseLog oneDayLog" "''2024-06-15''"]
      scoreAutonomy_formula [of "parseLog tieLog" "''2024-06-15''"] m t
    by blast
qed



text \<open>
  Claim C7. The scoring formulas are total: the quotient in Autonomy (sub / main) and the
  one in GhostDays (ghost / active) are taken only when the divisor is positive, so no
  log makes a ratio, a percentage or a point value undefined, also when there is no active
  day, no primary hour or no hour at all. On the log without keys every component scores 0,
  the total is 0 and the grade is F.
\<close>

theorem guarded_formulas:
  "ratio (scoreAutonomy byDate today 30) \<noteq> None \<and>
   a_points (scoreAutonomy byDate today 30) \<noteq> None \<and>
   pct (scoreGhostDays byDate today 30) \<noteq> None \<and>
   g_points (scoreGhostDays byDate today 30) \<noteq> None \<and>
   raw (scoreConsistency byDate today 30) \<noteq> None \<and>
   c_points (scoreConsistency byDate today 30) \<noteq> None \<and>
   (mainHours (scoreAutonomy byDate today 30) = 0 \<longrightarrow>
      ratio (scoreAutonomy byDate today 30) =
        Some (if subHours (scoreAutonomy byDate today 30) > 0 then 2 else 0)) \<and>
   (g_activeDays (scoreGhostDays byDate today 30) = 0 \<longrightarrow>
      pct (scoreGhostDays byDate today 30) = Some 0 \<and>
      g_points (scoreGhostDays byDate today 30) = Some 0) \<and>
   (c_activeDays (scoreConsistency byDate today 30) = 0 \<longrightarrow>
      c_points (scoreConsistency byDate today 30) = Some 0) \<and>
   (totalHours (scoreVolume byDate today 30) = 0 \<longrightarrow>
      v_points (scoreVolume byDate today 30) = 0) \<and>
   (\<exists>r. scoreAll Map.empty today = Some r \<and>
      c_points (consistency r) = Some 0 \<and> a_points (autonomy r) = Some 0 \<and>
      g_points (ghost r) = Some 0 \<and> v_points (volume r) = 0 \<and>
      s_points (streakPart r) = 0 \<and> score r = Some 0 \<and>
      grade_letter (tierOf r) = ''F'' \<and> label (tierOf r) = ''Dormant'')"
proof -
  have e: "\<exists>r. scoreAll Map.empty today = Some r \<and>
      c_points (consistency r) = Some 0 \<and> a_points (autonomy r) = Some 0 \<and>
      g_points (ghost r) = Some 0 \<and> v_points (volume r) = 0 \<and>
      s_points (streakPart r) = 0 \<and> score r = Some 0 \<and>
      grade_letter (tierOf r) = ''F'' \<and> label (tierOf r) = ''Dormant''"
    by (simp add: scoreAll_def empty_scores empty_streak scoreStreak_def jsRound_def jsAdd_def
        grade_def jsGe_def Let_def)
  show ?thesis
    using e
    by (simp add: scoreAutonomy_ratio scoreAutonomy_points scoreGhostDays_fields
        scoreConsistency_fields scoreVolume_fields jsRound_def)
qed

theorem guarded_formulas_witness:
  "mainHours (scoreAutonomy Map.empty ''2024-06-15'' 30) = 0 \<and>
   g_activeDays (scoreGhostDays Map.empty ''2024-06-15'' 30) = 0 \<and>
   c_activeDays (scoreConsistency Map.empty ''2024-06-15'' 30) = 0 \<and>
   totalHours (scoreVolume Map.empty ''2024-06-15'' 30) = 0 \<and>
   ratio (scoreAutonomy Map.empty ''2024-06-15'' 30) = Some 0 \<and>
   pct (scoreGhostDays Map.empty ''2024-06-15'' 30) = Some 0 \<and>
   g_points (scoreGhostDays Map.empty ''2024-06-15'' 30) = Some 0 \<and>
   c_points (scoreConsistency Map.empty ''2024-06-15'' 30) = Some 0 \<and>
   v_points (scoreVolume Map.empty ''2024-06-15'' 30) = 0"
proof -
  have h: "mainHours (scoreAutonomy Map.empty ''2024-06-15'' 30) = 0"
    "subHours (scoreAutonomy Map.empty ''2024-06-15'' 30) = 0"
    "g_activeDays (scoreGhostDays Map.empty ''2024-06-15'' 30) = 0"
    "c_activeDays (scoreConsistency Map.empty ''2024-06-15'' 30) = 0"
    "totalHours (scoreVolume Map.empty ''2024-06-15'' 30) = 0"
    by (simp_all add: empty_scores)
  show ?thesis
    using guarded_formulas [of Map.empty "''2024-06-15''"] h by simp
qed

text \<open>
  Claim C10. The four window scorers depend on the log only through the 30 dates of the
  window: two logs that agree on every date from today back to today - 29 get the same
  Consistency, Autonomy, GhostDays and Volume results, points and diagnostic fields alike,
  whatever they hold for earlier or later dates.
\<close>

theorem window_only:
  assumes "\<forall>d\<in>set (windowDates today 30). byDate d = byDate' d"
  shows "scoreConsistency byDate today 30 = scoreConsistency byDate' today 30 \<and>
    scoreAutonomy byDate today 30 = scoreAutonomy byDate' today 30 \<and>
    scoreGhostDays byDate today 30 = scoreGhostDays byDate' today 30 \<and>
    scoreVolume byDate today 30 = scoreVolume byDate' today 30"
proof -
  note d = dayValue_cong [OF assms]
  have "fold (\<lambda>i. consistencyBody (dayValue byDate today i)) [0..<30] 0 =
        fold (\<lambda>i. consistencyBody (dayValue byDate' today i)) [0..<30] 0"
    by (rule List.fold_cong) (simp_all add: d)
  moreover have "fold (\<lambda>i. autonomyBody (dayValue byDate today i)) [0..<30] (0, 0) =
        fold (\<lambda>i. autonomyBody (dayValue byDate' today i)) [0..<30] (0, 0)"
    by (rule List.fold_cong) (simp_all add: d)
  moreover have "fold (\<lambda>i. ghostBody (dayValue byDate today i)) [0..<30] (0, 0) =
        fold (\<lambda>i. ghostBody (dayValue byDate' today i)) [0..<30] (0, 0)"
    by (rule List.fold_cong) (simp_all add: d)
  moreover have "fold (\<lambda>i. volumeBody (dayValue byDate today i)) [0..<30] 0 =
        fold (\<lambda>i. volumeBody (dayValue byDate' today i)) [0..<30] 0"
    by (rule List.fold_cong) (simp_all add: d)
  ultimately show ?thesis
    by (simp add: scoreConsistency_def scoreAutonomy_def scoreGhostDays_def scoreVolume_def)
qed

theorem window_only_witness:
  "''2024-06-16'' \<notin> set (windowDates ''2024-06-15'' 30) \<and>
   ''2024-05-16'' \<notin> set (windowDates ''2024-06-15'' 30) \<and>
   futureLog ''2024-06-16'' \<noteq> pastLog ''2024-06-16'' \<and>
   futureLog ''2024-05-16'' \<noteq> pastLog ''2024-05-16'' \<and>
   scoreConsistency futureLog ''2024-06-15'' 30 = scoreConsistency pastLog ''2024-06-15'' 30 \<and>
   scoreAutonomy futureLog ''2024-06-15'' 30 = scoreAutonomy pastLog ''2024-06-15'' 30 \<and>
   scoreGhostDays futureLog ''2024-06-15'' 30 = scoreGhostDays pastLog ''2024-06-15'' 30 \<and>
   scoreVolume futureLog ''2024-06-15'' 30 = scoreVolume pastLog ''2024-06-15'' 30"
proof -
  have y: "0 \<le> yearFromDay 19890" "0 \<le> yearFromDay 19859"
    by (simp_all add: date_eval)
  have o: "''2024-06-16'' \<notin> set (windowDates ''2024-06-15'' 30)"
    "''2024-05-16'' \<notin> set (windowDates ''2024-06-15'' 30)"
    using outside_window [OF sample_anchor y(1)] outside_window [OF sample_anchor y(2)]
    by (simp_all add: sample_days)
  then have h: "\<forall>d\<in>set (windowDates ''2024-06-15'' 30). futureLog d = pastLog d"
    by (auto simp: futureLog_def pastLog_def)
  have n: "futureLog ''2024-06-16'' \<noteq> pastLog ''2024-06-16''"
    "futureLog ''2024-05-16'' \<noteq> pastLog ''2024-05-16''"
    by (simp_all add: futureLog_def pastLog_def oneDayLog_def)
  show ?thesis using window_only [OF h] o n by simp
qed

text \<open>
  Claim C3, as stated, fails at the anchor date: a structured record with zero hours
  there gives the streak 0, while the same log without that record gives the streak
  counted from the day before.
\<close>

theorem zero_anchor_counterexample:
  "zeroTodayLog ''2024-06-15'' = Some (Structured (Some (JNum 0)) (Some (JNum 0))) \<and>
   strictEqZero (activityOf (Structured (Some (JNum 0)) (Some (JNum 0)))) \<and>
   computeStreak zeroTodayLog ''2024-06-15'' = Some 0 \<and>
   computeStreak (zeroTodayLog(''2024-06-15'' := None)) ''2024-06-15'' = Some 1"
proof -
  have "computeStreak (zeroTodayLog(''2024-06-15'' := None)) ''2024-06-15'' = Some 1"
    by (rule yesterday_streak) (simp_all add: zeroTodayLog_def lookup_def)
  then show ?thesis
    by (simp add: zeroTodayLog_streak) (simp add: zeroTodayLog_def strictEqZero_def jsPlus_def orZero_def)
qed

text \<open>
  Claim C3, amended. At any date the walk reaches, a record that exists but whose hours sum
  to zero, be it a structured record or a legacy scalar (0, \<open>null\<close>, \<open>false\<close>), stops the
  streak exactly as a missing record does: the loop returns the count it has, and from any
  start its result is that on the log without the record. At the anchor date a legacy
  scalar that is falsy (0 in particular) is treated as an absent record, and the walk starts
  from the day before; a structured record with zero hours at the anchor date gives the
  streak 0.
\<close>

theorem zero_record_stops:
  "(byDate d = Some r \<and> strictEqZero (activityOf r) \<longrightarrow>
      streakLoop byDate d s = Some s \<and>
      streakLoop byDate d0 s0 = streakLoop (byDate(d := None)) d0 s0) \<and>
   (byDate today = Some (Legacy j) \<and> \<not> truthy j \<longrightarrow>
      computeStreak byDate today = computeStreak (byDate(today := None)) today) \<and>
   (byDate today = Some (Structured m sb) \<and> strictEqZero (jsPlus (orZero m) (orZero sb)) \<longrightarrow>
      computeStreak byDate today = Some 0)"
proof (intro conjI impI)
  assume a: "byDate d = Some r \<and> strictEqZero (activityOf r)"
  then have n: "\<not> dayCounts (byDate d)" by (simp add: dayCounts_def)
  then show "streakLoop byDate d s = Some s" by (rule streakLoop_stops)
  have "dayCounts (byDate k) = dayCounts ((byDate(d := None)) k)" for k
    using n by (simp add: dayCounts_def)
  then show "streakLoop byDate d0 s0 = streakLoop (byDate(d := None)) d0 s0"
    by (rule streakLoop_cong)
next
  assume a: "byDate today = Some (Legacy j) \<and> \<not> truthy j"
  have c: "dayCounts (byDate k) = dayCounts ((byDate(today := None)) k)" for k
    using a by (simp add: dayCounts_def)
  have "lookup byDate today = None" "lookup (byDate(today := None)) today = None"
    using a by (simp_all add: lookup_def)
  then show "computeStreak byDate today = computeStreak (byDate(today := None)) today"
    using streakLoop_cong [of byDate "byDate(today := None)", OF c]
    by (simp add: computeStreak_def)
next
  assume a: "byDate today = Some (Structured m sb) \<and> strictEqZero (jsPlus (orZero m) (orZero sb))"
  then have "lookup byDate today = Some (Structured m sb)" "\<not> dayCounts (byDate today)"
    by (simp_all add: lookup_def dayCounts_def)
  then show "computeStreak byDate today = Some 0"
    by (simp add: computeStreak_def streakLoop_stops)
qed

theorem zero_record_stops_witness:
  "zeroTodayLog ''2024-06-15'' = Some (Structured (Some (JNum 0)) (Some (JNum 0))) \<and>
   streakLoop zeroTodayLog ''2024-06-15'' 5 = Some 5 \<and>
   streakLoop zeroTodayLog ''2024-06-16'' 0 =
     streakLoop (zeroTodayLog(''2024-06-15'' := None)) ''2024-06-16'' 0 \<and>
   computeStreak zeroTodayLog ''2024-06-15'' = Some 0 \<and>
   scalarZeroLog ''2024-06-15'' = Some (Legacy (JNum 0)) \<and>
   streakLoop scalarZeroLog ''2024-06-15'' 5 = Some 5 \<and>
   streakLoop scalarZeroLog ''2024-06-16'' 0 =
     streakLoop (scalarZeroLog(''2024-06-15'' := None)) ''2024-06-16'' 0 \<and>
   computeStreak scalarZeroLog ''2024-06-15'' =
     computeStreak (scalarZeroLog(''2024-06-15'' := None)) ''2024-06-15''"
proof -
  have z: "zeroTodayLog ''2024-06-15'' = Some (Structured (Some (JNum 0)) (Some (JNum 0)))"
    by (simp add: zeroTodayLog_def)
  have e: "strictEqZero (jsPlus (orZero (Some (JNum 0))) (orZero (Some (JNum 0))))"
    "strictEqZero (activityOf (Structured (Some (JNum 0)) (Some (JNum 0))))"
    "strictEqZero (activityOf (Legacy (JNum 0)))"
    by (simp_all add: strictEqZero_def jsPlus_def orZero_def)
  have l: "scalarZeroLog ''2024-06-15'' = Some (Legacy (JNum 0))"
    by (simp add: scalarZeroLog_def)
  show ?thesis
    using zero_record_stops [of zeroTodayLog "''2024-06-15''"
        "Structured (Some (JNum 0)) (Some (JNum 0))" 5 "''2024-06-16''" 0 "''2024-06-15''"
        "JNum 0" "Some (JNum 0)" "Some (JNum 0)"]
      zero_record_stops [of scalarZeroLog "''2024-06-15''"
        "Legacy (JNum 0)" 5 "''2024-06-16''" 0 "''2024-06-15''" "JNum 0" None None]
      z e l
    by simp
qed

text \<open>
  Claim C5. Every window scorer (Consistency, Autonomy, GhostDays, Volume) accumulates
  over exactly the 30 dates today, today - 1, ..., today - 29: the dates it reads are those
  reached from the anchor date by stepping back one calendar day at a time on year, month
  and day (rolling over months, leap years and years), no date is read twice, none lies
  after today, each count and sum it reports is the count or sum over that set of dates,
  and a date without a record contributes nothing.
\<close>

theorem window_dates:
  assumes "anchorDate today y m d"
  shows "windowDates today 30 =
      map (\<lambda>i. case (prevDay ^^ i) (y, m, d) of (y', m', d') \<Rightarrow> dateString y' m' d') [0..<30] \<and>
    length (windowDates today 30) = 30 \<and> distinct (windowDates today 30) \<and>
    hd (windowDates today 30) = today \<and>
    (\<forall>i<30. windowDates today 30 ! i = jsDate (makeDay y (m - 1) d - int i)) \<and>
    c_activeDays (scoreConsistency byDate today 30) =
      card {k \<in> set (windowDates today 30). dayActive (byDate k)} \<and>
    mainHours (scoreAutonomy byDate today 30) =
      (\<Sum>k\<in>set (windowDates today 30). dayMain (byDate k)) \<and>
    subHours (scoreAutonomy byDate today 30) =
      (\<Sum>k\<in>set (windowDates today 30). daySub (byDate k)) \<and>
    ghostDays (scoreGhostDays byDate today 30) =
      card {k \<in> set (windowDates today 30). dayGhost (byDate k)} \<and>
    g_activeDays (scoreGhostDays byDate today 30) =
      card {k \<in> set (windowDates today 30). dayBusy (byDate k)} \<and>
    totalHours (scoreVolume byDate today 30) =
      (\<Sum>k\<in>set (windowDates today 30). dayHours (byDate k)) \<and>
    dayMain None = 0 \<and> daySub None = 0 \<and> dayHours None = 0 \<and>
    \<not> dayActive None \<and> \<not> dayBusy None \<and> \<not> dayGhost None \<and>
    addDays ''2024-03-01'' (- 1) = ''2024-02-29'' \<and> addDays ''2023-03-01'' (- 1) = ''2023-02-28'' \<and>
    addDays ''2024-01-01'' (- 1) = ''2023-12-31'' \<and> addDays ''2100-03-01'' (- 1) = ''2100-02-28''"
proof -
  have w: "(30::nat) \<le> 1000" by simp
  have h: "hd (windowDates today 30) = today"
    using window_today [OF assms] by (simp add: windowDates_def upt_rec)
  have n: "\<forall>i<30. windowDates today 30 ! i = jsDate (makeDay y (m - 1) d - int i)"
    using window_nth [OF assms] by blast
  have l: "length (windowDates today 30) = 30" by (simp add: windowDates_def)
  note c = window_card [OF assms w, of "\<lambda>k. dayActive (byDate k)"]
    window_card [OF assms w, of "\<lambda>k. dayGhost (byDate k)"]
    window_card [OF assms w, of "\<lambda>k. dayBusy (byDate k)"]
  note s = window_sum [OF assms w, of "\<lambda>k. dayMain (byDate k)"]
    window_sum [OF assms w, of "\<lambda>k. daySub (byDate k)"]
    window_sum [OF assms w, of "\<lambda>k. dayHours (byDate k)"]
  show ?thesis
    unfolding scorer_counts scoreAutonomy_sums c s
    using window_calendar [OF assms] windowDates_distinct [OF assms w] h n l
    by (simp add: empty_day rollover_samples)
qed

theorem window_dates_witness:
  "anchorDate ''2024-01-10'' 2024 1 10 \<and> distinct (windowDates ''2024-01-10'' 30) \<and>
   hd (windowDates ''2024-01-10'' 30) = ''2024-01-10'' \<and>
   windowDates ''2024-01-10'' 30 ! 9 = ''2024-01-01'' \<and>
   windowDates ''2024-01-10'' 30 ! 10 = ''2023-12-31'' \<and>
   windowDates ''2024-01-10'' 30 ! 29 = ''2023-12-12''"
proof -
  have m: "makeDay 2024 0 10 = 19732" by (simp add: date_eval)
  have j: "jsDate 19723 = ''2024-01-01''" "jsDate 19722 = ''2023-12-31''"
    "jsDate 19703 = ''2023-12-12''"
    by (simp_all add: date_eval)
  note t = window_dates [OF new_year_anchor, of Map.empty]
  have d: "distinct (windowDates ''2024-01-10'' 30)"
    using t by (elim conjE)
  have h: "hd (windowDates ''2024-01-10'' 30) = ''2024-01-10''"
    using t by (elim conjE)
  have n: "\<forall>i<30. windowDates ''2024-01-10'' 30 ! i = jsDate (makeDay 2024 (1 - 1) 10 - int i)"
    using t by (elim conjE)
  have "windowDates ''2024-01-10'' 30 ! 9 = ''2024-01-01''"
    "windowDates ''2024-01-10'' 30 ! 10 = ''2023-12-31''"
    "windowDates ''2024-01-10'' 30 ! 29 = ''2023-12-12''"
    using n [rule_format, of 9] n [rule_format, of 10] n [rule_format, of 29]
    by (simp_all add: m j)
  then show ?thesis using new_year_anchor d h by simp
qed

text \<open>
  Claim C6. When the anchor date has no record, the streak detector starts counting from
  the previous calendar day. So for a log in which today has no record, yesterday and the
  35 days before it all have positive activity, and the day before those is not counted,
  the streak is 36.
\<close>

theorem streak_from_yesterday:
  assumes a: "anchorDate today y m d" and n: "byDate today = None"
  shows "computeStreak byDate today = streakLoop byDate (addDays today (- 1)) 0 \<and>
    addDays today (- 1) = (case prevDay (y, m, d) of (y', m', d') \<Rightarrow> dateString y' m' d') \<and>
    ((\<forall>i\<in>{1..36}. dayActive (byDate (addDays today (- int i)))) \<and>
      \<not> dayCounts (byDate (addDays today (- 37))) \<longrightarrow>
        computeStreak byDate today = Some 36)"
proof (intro conjI impI)
  have l: "lookup byDate today = None" using n by (simp add: lookup_def)
  show s: "computeStreak byDate today = streakLoop byDate (addDays today (- 1)) 0"
    by (simp add: computeStreak_def l)
  have v: "validDate y m d" using a by (simp add: anchorDate_def)
  show "addDays today (- 1) = (case prevDay (y, m, d) of (y', m', d') \<Rightarrow> dateString y' m' d')"
    using anchor_back [OF a, of 1] jsDate_prev [OF v, of 1] by simp
  assume h: "(\<forall>i\<in>{1..36}. dayActive (byDate (addDays today (- int i)))) \<and>
      \<not> dayCounts (byDate (addDays today (- 37)))"
  define N where "N = makeDay y (m - 1) d"
  have c: "\<forall>i<36. dayCounts (byDate (jsDate (N - 1 - int i)))"
  proof (intro allI impI)
    fix i :: nat assume i: "i < 36"
    then have "Suc i \<in> {1..36}" by simp
    with h have "dayActive (byDate (addDays today (- int (Suc i))))" by blast
    moreover have "addDays today (- int (Suc i)) = jsDate (N - 1 - int i)"
      using anchor_back [OF a, of "Suc i"] i by (simp add: N_def algebra_simps)
    ultimately show "dayCounts (byDate (jsDate (N - 1 - int i)))"
      by (simp only: dayActive_counts)
  qed
  have "addDays today (- 37) = jsDate (N - 1 - int 36)"
    using anchor_back [OF a, of 37] by (simp add: N_def)
  then have e: "\<not> dayCounts (byDate (jsDate (N - 1 - int 36)))" using h by simp
  have lo: "dayFromYear 100 - 1 \<le> N - 1 - int 36" and hi: "N - 1 \<le> 100000000"
    using anchor_day(3,4) [OF a] by (simp_all add: N_def dayFromYear_values)
  have "streakLoop byDate (jsDate (N - 1)) 0 = Some (0 + 36)"
    by (rule streak_run [OF c e lo hi])
  moreover have "addDays today (- 1) = jsDate (N - 1)"
    using anchor_back [OF a, of 1] by (simp add: N_def)
  ultimately show "computeStreak byDate today = Some 36" by (simp add: s)
qed

theorem streak_from_yesterday_witness:
  "anchorDate ''2024-06-15'' 2024 6 15 \<and> streakLog ''2024-06-15'' = None \<and>
   streakLog ''2024-06-14'' = Some (Legacy (JNum 1)) \<and>
   computeStreak streakLog ''2024-06-15'' = Some 36"
proof -
  have n: "streakLog ''2024-06-15'' = None"
    using streakLog_at [of 0] window_today [OF sample_anchor] by simp
  have y: "streakLog ''2024-06-14'' = Some (Legacy (JNum 1))"
    using streakLog_at [of 1] sample_yesterday by simp
  have c: "\<forall>i\<in>{1..36}. dayActive (streakLog (addDays ''2024-06-15'' (- int i)))"
    by (simp add: streakLog_at dayActive_def dayHours_def orZero_def)
  have "streakLog (addDays ''2024-06-15'' (- int 37)) = None"
    by (subst streakLog_at) simp_all
  then have e: "\<not> dayCounts (streakLog (addDays ''2024-06-15'' (- 37)))"
    by (simp add: dayCounts_def)
  from streak_from_yesterday [of "''2024-06-15''" 2024 6 15 streakLog, OF sample_anchor n] c e
  have "computeStreak streakLog ''2024-06-15'' = Some 36" by blast
  then show ?thesis using sample_anchor n y by simp
qed






end
